theory Spec2Isabelle
  imports Main "HOL-Library.Multiset" "HOL-Library.Word"
begin

section \<open>Array.prototype.split\<close>

text \<open>
  The source:
  \<^verbatim>\<open>
  Array.prototype.split = function <T>(size: number): Array<Array<T>> {
    size = Math.max(1, size ?? 0);
    const chunkList = [];
    for (let i = 0; i < this.length; i += size) {
      chunkList.push(this.slice(i, i + size));
    }
    return chunkList;
  };
  \<close>
  The size is an integer or null/undefined (\<open>None\<close>). \<open>slice(i, i + size)\<close> on an
  array, for integers \<open>0 \<le> i\<close> and \<open>0 \<le> size\<close>, is \<open>take size (drop i xs)\<close>.
  The loop is written as it stands, with the loop variable \<open>i\<close> and the accumulated
  \<open>chunkList\<close>; it is a partial function, since nothing in the loop itself makes
  \<open>i\<close> grow: not returning is the value \<open>None\<close>.
\<close>

definition slice :: "'a list \<Rightarrow> nat \<Rightarrow> nat \<Rightarrow> 'a list" where
  "slice xs i j = take (j - i) (drop i xs)"

partial_function (option) splitLoop ::
  "nat \<Rightarrow> nat \<Rightarrow> 'a list \<Rightarrow> 'a list list \<Rightarrow> 'a list list option" where
  "splitLoop sz i xs chunkList =
     (if i < length xs
      then splitLoop sz (i + sz) xs (chunkList @ [slice xs i (i + sz)])
      else Some chunkList)"

declare splitLoop.simps [code]

definition split :: "int option \<Rightarrow> 'a list \<Rightarrow> 'a list list option" where
  "split sz xs =
     (let sz' = nat (max 1 (case sz of None \<Rightarrow> 0 | Some s \<Rightarrow> s))
      in splitLoop sz' 0 xs [])"

text \<open>The chunks as a total function, for a positive size: the value the loop computes.\<close>

function chunksOf :: "nat \<Rightarrow> 'a list \<Rightarrow> 'a list list" where
  "chunksOf n xs = (if n = 0 \<or> xs = [] then [] else take n xs # chunksOf n (drop n xs))"
  by pat_completeness auto
termination
  by (relation "measure (\<lambda>(n, xs). length xs)") auto

declare chunksOf.simps [simp del]


section \<open>Strings used for task names\<close>

text \<open>
  A string of the program is a sequence of 16-bit code units (UTF-16). \<open>codeUnits\<close> gives
  the code units of a literal written with characters below U+0100, each of which is one
  code unit, its code point.

  \<open>String.prototype.trim\<close> removes from both ends the code points of the productions
  WhiteSpace and LineTerminator of ECMAScript: U+0009 (tab), U+000B, U+000C, U+FEFF and the
  space separators (category Zs) U+0020, U+00A0, U+1680, U+2000 to U+200A, U+202F, U+205F
  and U+3000; U+000A, U+000D, U+2028 and U+2029. Each of them is a single code unit, and
  no code unit of a surrogate pair is among them, so that trimming code points and
  trimming code units are the same. U+0085 and U+200B are not white space, nor is U+180E
  since it left the category Zs.

  \<open>showNat\<close> is the decimal numeral that a template literal prints for an index.
\<close>

type_synonym jsString = "16 word list"

definition codeUnits :: "string \<Rightarrow> jsString" where
  "codeUnits s = map (\<lambda>c. of_nat (of_char c)) s"

definition isWhiteSpace :: "16 word \<Rightarrow> bool" where
  "isWhiteSpace c = (c \<in> set [0x0009, 0x000A, 0x000B, 0x000C, 0x000D, 0x0020, 0x00A0, 0x1680,
      0x2000, 0x2001, 0x2002, 0x2003, 0x2004, 0x2005, 0x2006, 0x2007, 0x2008, 0x2009, 0x200A,
      0x2028, 0x2029, 0x202F, 0x205F, 0x3000, 0xFEFF])"

definition trim :: "jsString \<Rightarrow> jsString" where
  "trim s = rev (dropWhile isWhiteSpace (rev (dropWhile isWhiteSpace s)))"

definition digitUnit :: "nat \<Rightarrow> 16 word" where
  "digitUnit d = 0x30 + of_nat d"

function showNat :: "nat \<Rightarrow> jsString" where
  "showNat n = (if n < 10 then [digitUnit n] else showNat (n div 10) @ [digitUnit (n mod 10)])"
  by pat_completeness auto
termination
  by (relation "measure id") auto

declare showNat.simps [simp del]

section \<open>The task coordinator (class AsyncTaskHelper)\<close>

subsection \<open>Data\<close>

text \<open>
  \<open>AsyncTaskHelperTaskMode\<close> is the enum of the source. A result (\<open>AnyType\<close>) is an
  opaque value of the caller or a reference to a result array: a child coordinator hands
  its own \<open>asyncTaskResultList\<close> array to the callback of its parent, by reference.

  A task function is foreign code; what the coordinator can see of it is when it calls
  the completion callback it is given. \<open>UserFunction name now later\<close> is a function of
  the caller, with its \<open>name\<close> property, that calls the callback once with each value
  of \<open>now\<close> before it returns, and leaves one deferred call for each value of \<open>later\<close>
  to the host's scheduler. A function that calls back exactly once has
  \<open>length now + length later = 1\<close>; one that never calls back has both empty.
  \<open>ChunkFunction debug chunk\<close> is the arrow function that \<open>start\<close> builds for a
  chunk, closed over \<open>this.isDebug\<close> (assigned in the constructor only) and the chunk.
\<close>

datatype AsyncTaskHelperTaskMode = Queue | Pool

datatype 'r AsyncTaskHelperResult = Value 'r | ArrayRef nat

datatype 'r taskFunction =
    UserFunction jsString "'r list" "'r list"
  | ChunkFunction bool "'r AsyncTaskHelperTask list"
and 'r AsyncTaskHelperTask =
    Task (asyncTaskFunction: "'r taskFunction") (taskName: jsString)

text \<open>
  The closure that \<open>runTask\<close> passes to a task function: it holds \<open>this\<close> (an address),
  the task and whether \<open>next\<close> is \<open>processNextQueueTask\<close> (\<open>True\<close>) or null.
\<close>

datatype 'r taskCallback = TaskCallback nat "'r AsyncTaskHelperTask" bool

text \<open>
  A completion handler (\<open>AsyncTaskHelperFinalCallback\<close>): a function of the caller, known
  by a number; the handler \<open>start\<close> gives a chunk's child coordinator, which forwards the
  child's result list to \<open>poolCallback\<close>; the handler \<open>start\<close> gives the coordinator that
  sequences the chunks, which flattens into \<open>this.asyncTaskResultList\<close> and calls
  \<open>this.finished()\<close>.
\<close>

datatype 'r finalCallback =
    UserCallback nat
  | ForwardTo "'r taskCallback"
  | FlattenInto nat

text \<open>
  What \<open>add\<close> receives: a bare function, or a task record whose \<open>taskName\<close> property is
  absent, present but null or undefined, or a string; one of them, an array of them, or
  null/undefined.
\<close>

datatype nameField = NoName | NullName | Named jsString

datatype 'r taskCandidate =
    Function "'r taskFunction"
  | TaskRecord "'r taskFunction" nameField

datatype 'r addInput = NullLike | Single "'r taskCandidate" | Several "'r taskCandidate list"

text \<open>
  \<open>AsyncTaskHelperOptions\<close>; \<open>None\<close> is an absent field. The \<open>name\<close> option has the type
  of the empty string literal, which is falsy, so it never changes \<open>instanceID\<close>.
\<close>

record 'r AsyncTaskHelperOptions =
  debug :: "bool option"
  taskMode_opt :: "AsyncTaskHelperTaskMode option"
  asyncTaskList_opt :: "'r taskCandidate list option"
  finalCallback_opt :: "'r finalCallback option"

text \<open>The fields of an instance; \<open>asyncTaskResultList\<close> is the address of its array.\<close>

record 'r AsyncTaskHelper =
  taskMode :: AsyncTaskHelperTaskMode
  asyncTaskList :: "'r AsyncTaskHelperTask list"
  asyncTaskResultList :: nat
  finalCallback :: "'r finalCallback option"
  isStarted :: bool
  isFinished :: bool
  isDebug :: bool
  instanceID :: jsString

text \<open>
  The store: instances and arrays by address, the number of UUIDs drawn so far, and what
  the outside sees: the deferred callback invocations not yet delivered (\<open>pending\<close>), the
  calls of \<open>runTask\<close> (\<open>invoked\<close>, with the address of the instance), and the invocations of
  completion handlers by \<open>finished\<close> (\<open>fired\<close>: the instance, the handler and the contents
  of the result list at the call). \<open>console.debug\<close> output is not modelled.
\<close>

record 'r world =
  heap :: "'r AsyncTaskHelper list"
  arrays :: "'r AsyncTaskHelperResult list list"
  uuidCount :: nat
  pending :: "('r taskCallback \<times> 'r) list"
  invoked :: "(nat \<times> 'r AsyncTaskHelperTask) list"
  fired :: "(nat \<times> 'r finalCallback \<times> 'r AsyncTaskHelperResult list) list"

definition emptyWorld :: "'r world" where
  "emptyWorld = \<lparr>heap = [], arrays = [], uuidCount = 0, pending = [], invoked = [], fired = []\<rparr>"

definition results :: "'r world \<Rightarrow> nat \<Rightarrow> 'r AsyncTaskHelperResult list" where
  "results w this = arrays w ! asyncTaskResultList (heap w ! this)"

text \<open>
  The statements still to run: the calls that a method or closure makes one after the
  other, each of which may run foreign code or re-enter the coordinator. \<open>Deliver i\<close> is
  the host's scheduler running the \<open>i\<close>-th pending callback invocation; \<open>Hang\<close> is a
  loop that does not return.
\<close>

datatype 'r call =
    New "'r AsyncTaskHelperOptions"
  | Add nat "'r addInput"
  | PoolCall nat "'r finalCallback option"
  | QueueCall nat "'r finalCallback option"
  | Start nat "'r finalCallback option" "AsyncTaskHelperTaskMode option"
  | Quit nat "'r finalCallback option"
  | ProcessNextQueueTask nat
  | RunTask nat "'r AsyncTaskHelperTask" bool
  | Invoke "'r taskFunction" "'r taskCallback"
  | CallBack "'r taskCallback" "'r AsyncTaskHelperResult"
  | CallFinal "'r finalCallback" nat
  | Deliver nat
  | Hang

subsection \<open>add and the constructor\<close>

definition functionName :: "'r taskFunction \<Rightarrow> jsString" where
  "functionName f = (case f of UserFunction name _ _ \<Rightarrow> name
                               | ChunkFunction _ _ \<Rightarrow> (codeUnits ''asyncTaskFunction''))"

text \<open>
  The callback of \<open>map\<close> in \<open>add\<close>, with the UUID it draws: a function gets the UUID as
  name; for a record, \<open>Object.assign\<close> lets the record's own \<open>taskName\<close> property, if
  there is one, replace the UUID, also by null or undefined.
\<close>

definition wrapCandidate :: "jsString \<Rightarrow> 'r taskCandidate \<Rightarrow> 'r taskFunction \<times> jsString option" where
  "wrapCandidate uuid taskCandidate =
     (case taskCandidate of
        Function f \<Rightarrow> (f, Some uuid)
      | TaskRecord f NoName \<Rightarrow> (f, Some uuid)
      | TaskRecord f NullName \<Rightarrow> (f, None)
      | TaskRecord f (Named name) \<Rightarrow> (f, Some name))"

text \<open>The callback of \<open>forEach\<close> in \<open>add\<close>: the task that is pushed.\<close>

definition nameTask :: "nat \<Rightarrow> 'r taskFunction \<times> jsString option \<Rightarrow> 'r AsyncTaskHelperTask" where
  "nameTask index asyncTask =
     (case asyncTask of (f, name) \<Rightarrow>
        Task f (trim (case name of Some s \<Rightarrow> s
                                 | None \<Rightarrow> showNat index @ (codeUnits ''#'') @ functionName f)))"

definition availableAsyncTaskList ::
  "(nat \<Rightarrow> jsString) \<Rightarrow> nat \<Rightarrow> 'r taskCandidate list \<Rightarrow> 'r AsyncTaskHelperTask list" where
  "availableAsyncTaskList generateUUID n candidates =
     map (\<lambda>(index, asyncTask). nameTask index asyncTask)
       (enumerate 0 (map (\<lambda>(k, c). wrapCandidate (generateUUID (n + k)) c)
                        (enumerate 0 candidates)))"

text \<open>
  \<open>generateUUID k\<close> is the \<open>k\<close>-th string that \<open>Library.Security.generateUUID\<close> returns.
  \<open>candidates\<close> is the array that \<open>add\<close> maps over, if its argument is not null-like.
  \<open>add\<close> returns \<open>this\<close> and the new store.
\<close>

definition candidates :: "'r addInput \<Rightarrow> 'r taskCandidate list option" where
  "candidates input = (case input of NullLike \<Rightarrow> None
                                   | Single c \<Rightarrow> Some [c]
                                   | Several cs \<Rightarrow> Some cs)"

definition add :: "(nat \<Rightarrow> jsString) \<Rightarrow> nat \<Rightarrow> 'r addInput \<Rightarrow> 'r world \<Rightarrow> nat \<times> 'r world" where
  "add generateUUID this input w =
     (case candidates input of
        None \<Rightarrow> (this, w)
      | Some cs \<Rightarrow>
          (let obj = heap w ! this;
               new = availableAsyncTaskList generateUUID (uuidCount w) cs
           in (this, w\<lparr>heap := (heap w)[this := obj\<lparr>asyncTaskList := asyncTaskList obj @ new\<rparr>],
                       uuidCount := uuidCount w + length cs\<rparr>)))"

text \<open>
  The constructor: the field initialisers (one UUID for \<open>instanceID\<close>, a fresh empty
  array), the options, then \<open>add\<close> for each task of the options. It returns the address of
  the new instance.
\<close>

definition construct ::
  "(nat \<Rightarrow> jsString) \<Rightarrow> 'r AsyncTaskHelperOptions \<Rightarrow> 'r world \<Rightarrow> nat \<times> 'r world" where
  "construct generateUUID options w =
     (let this = length (heap w);
          obj = \<lparr>taskMode = (case taskMode_opt options of Some m \<Rightarrow> m | None \<Rightarrow> Queue),
                 asyncTaskList = [],
                 asyncTaskResultList = length (arrays w),
                 finalCallback = finalCallback_opt options,
                 isStarted = False,
                 isFinished = False,
                 isDebug = (case debug options of Some d \<Rightarrow> d | None \<Rightarrow> False),
                 instanceID = (codeUnits ''AsyncTaskHelper::'') @ generateUUID (uuidCount w)\<rparr>;
          w1 = w\<lparr>heap := heap w @ [obj], arrays := arrays w @ [[]],
                 uuidCount := Suc (uuidCount w)\<rparr>
      in (this, fold (\<lambda>task w'. snd (add generateUUID this (Single task) w'))
                  (case asyncTaskList_opt options of Some l \<Rightarrow> l | None \<Rightarrow> []) w1))"


subsection \<open>The methods\<close>

definition asyncPoolChunkSize :: nat where
  "asyncPoolChunkSize = 30"

text \<open>
  \<open>finished\<close>: the guard on \<open>isFinished\<close>, then the completion handler, if there is one,
  called with \<open>this.asyncTaskResultList\<close>. Every method returns \<open>this\<close>, the store and
  the calls that it leaves to run.
\<close>

definition finished :: "nat \<Rightarrow> 'r world \<Rightarrow> nat \<times> 'r world \<times> 'r call list" where
  "finished this w =
     (let obj = heap w ! this in
      if isFinished obj then (this, w, [])
      else
        let w1 = w\<lparr>heap := (heap w)[this := obj\<lparr>isFinished := True\<rparr>]\<rparr> in
        case finalCallback obj of
          None \<Rightarrow> (this, w1, [])
        | Some f \<Rightarrow>
            (this,
             w1\<lparr>fired := fired w1 @ [(this, f, arrays w ! asyncTaskResultList obj)]\<rparr>,
             [CallFinal f (asyncTaskResultList obj)]))"

definition asyncTaskFinished ::
  "nat \<Rightarrow> 'r AsyncTaskHelperTask \<Rightarrow> 'r AsyncTaskHelperResult \<Rightarrow> 'r world
     \<Rightarrow> nat \<times> 'r world \<times> 'r call list" where
  "asyncTaskFinished this asyncTask result w =
     (let a = asyncTaskResultList (heap w ! this);
          w1 = w\<lparr>arrays := (arrays w)[a := arrays w ! a @ [result]]\<rparr>
      in if length (asyncTaskList (heap w1 ! this)) \<le> length (arrays w1 ! a)
         then (case finished this w1 of (_, w2, calls) \<Rightarrow> (this, w2, calls))
         else (this, w1, []))"

definition runTask ::
  "nat \<Rightarrow> 'r AsyncTaskHelperTask \<Rightarrow> bool \<Rightarrow> 'r world \<Rightarrow> nat \<times> 'r world \<times> 'r call list" where
  "runTask this asyncTask next w =
     (this, w\<lparr>invoked := invoked w @ [(this, asyncTask)]\<rparr>,
      [Invoke (asyncTaskFunction asyncTask) (TaskCallback this asyncTask next)])"

definition processNextQueueTask :: "nat \<Rightarrow> 'r world \<Rightarrow> 'r world \<times> 'r call list" where
  "processNextQueueTask this w =
     (let obj = heap w ! this;
          resultLength = length (arrays w ! asyncTaskResultList obj)
      in if length (asyncTaskList obj) \<noteq> 0 \<and> resultLength < length (asyncTaskList obj)
         then (case runTask this (asyncTaskList obj ! resultLength) True w of
                 (_, w1, calls) \<Rightarrow> (w1, calls))
         else (w, []))"

definition quit ::
  "nat \<Rightarrow> 'r finalCallback option \<Rightarrow> 'r world \<Rightarrow> nat \<times> 'r world \<times> 'r call list" where
  "quit this finalCallback' w =
     (let obj = heap w ! this;
          w1 = w\<lparr>heap := (heap w)[this := obj\<lparr>finalCallback := finalCallback'\<rparr>]\<rparr>
      in case finished this w1 of (_, w2, calls) \<Rightarrow> (this, w2, calls))"

text \<open>
  \<open>start\<close>. An omitted \<open>taskMode\<close> argument (\<open>None\<close>) takes the parameter's default
  \<open>Queue\<close>, so the value assigned to \<open>this.taskMode\<close> is never taken from the field.
  The chunk tasks are records without a \<open>taskName\<close>; the options of the sequencing
  coordinator hold nothing else.
\<close>

definition start ::
  "(nat \<Rightarrow> jsString) \<Rightarrow> nat \<Rightarrow> 'r finalCallback option \<Rightarrow> AsyncTaskHelperTaskMode option
     \<Rightarrow> 'r world \<Rightarrow> nat \<times> 'r world \<times> 'r call list" where
  "start generateUUID this finalCallback' taskMode' w =
     (let obj = heap w ! this;
          taskMode'' = (case taskMode' of None \<Rightarrow> Queue | Some m \<Rightarrow> m);
          obj1 = obj\<lparr>finalCallback := (case finalCallback' of Some f \<Rightarrow> Some f
                                                           | None \<Rightarrow> finalCallback obj),
                     taskMode := taskMode''\<rparr>;
          w1 = w\<lparr>heap := (heap w)[this := obj1]\<rparr>
      in if isStarted obj1 then (this, w1, [])
         else
           let obj2 = obj1\<lparr>isStarted := True\<rparr>;
               w2 = w\<lparr>heap := (heap w)[this := obj2]\<rparr>
           in if length (asyncTaskList obj2) = 0 then finished this w2
              else
                case taskMode obj2 of
                  Queue \<Rightarrow> (this, w2, [ProcessNextQueueTask this])
                | Pool \<Rightarrow>
                    if length (asyncTaskList obj2) \<le> asyncPoolChunkSize
                    then (this, w2, map (\<lambda>asyncTask. RunTask this asyncTask False)
                                       (asyncTaskList obj2))
                    else
                      (case split (Some (int asyncPoolChunkSize)) (asyncTaskList obj2) of
                         None \<Rightarrow> (this, w2, [Hang])
                       | Some chunks \<Rightarrow>
                           (case construct generateUUID
                                   \<lparr>debug = None, taskMode_opt = None,
                                    asyncTaskList_opt = Some
                                      (map (\<lambda>chunkedAsyncTaskList.
                                              TaskRecord (ChunkFunction (isDebug obj2)
                                                            chunkedAsyncTaskList) NoName)
                                           chunks),
                                    finalCallback_opt = None\<rparr> w2 of
                              (sequencer, w3) \<Rightarrow>
                                (this, w3, [QueueCall sequencer (Some (FlattenInto this))]))))"

definition pool ::
  "(nat \<Rightarrow> jsString) \<Rightarrow> nat \<Rightarrow> 'r finalCallback option \<Rightarrow> 'r world
     \<Rightarrow> nat \<times> 'r world \<times> 'r call list" where
  "pool generateUUID this finalCallback' w =
     (case start generateUUID this finalCallback' (Some Pool) w of
        (_, w1, calls) \<Rightarrow> (this, w1, calls))"

definition queue ::
  "(nat \<Rightarrow> jsString) \<Rightarrow> nat \<Rightarrow> 'r finalCallback option \<Rightarrow> 'r world
     \<Rightarrow> nat \<times> 'r world \<times> 'r call list" where
  "queue generateUUID this finalCallback' w =
     (case start generateUUID this finalCallback' (Some Queue) w of
        (_, w1, calls) \<Rightarrow> (this, w1, calls))"

subsection \<open>Closures and foreign code\<close>

text \<open>
  Calling a task function with a callback. A function of the caller calls back now and
  leaves its deferred calls pending. A chunk function builds the child coordinator from
  \<open>{debug: this.isDebug, asyncTaskList: chunkedAsyncTaskList}\<close> and calls \<open>pool\<close> on it
  with a handler that forwards to \<open>poolCallback\<close>.
\<close>

definition invoke ::
  "(nat \<Rightarrow> jsString) \<Rightarrow> 'r taskFunction \<Rightarrow> 'r taskCallback \<Rightarrow> 'r world
     \<Rightarrow> 'r world \<times> 'r call list" where
  "invoke generateUUID f callback w =
     (case f of
        UserFunction _ now later \<Rightarrow>
          (w\<lparr>pending := pending w @ map (\<lambda>r. (callback, r)) later\<rparr>,
           map (\<lambda>r. CallBack callback (Value r)) now)
      | ChunkFunction dbg chunkedAsyncTaskList \<Rightarrow>
          (case construct generateUUID
                  \<lparr>debug = Some dbg, taskMode_opt = None,
                   asyncTaskList_opt = Some
                     (map (\<lambda>t. TaskRecord (asyncTaskFunction t) (Named (taskName t)))
                          chunkedAsyncTaskList),
                   finalCallback_opt = None\<rparr> w of
             (child, w1) \<Rightarrow> (w1, [PoolCall child (Some (ForwardTo callback))])))"

text \<open>The closure of \<open>runTask\<close>: \<open>asyncTaskFinished\<close>, then \<open>next\<close> unless it is null.\<close>

definition callBack ::
  "'r taskCallback \<Rightarrow> 'r AsyncTaskHelperResult \<Rightarrow> 'r world \<Rightarrow> 'r world \<times> 'r call list" where
  "callBack callback result w =
     (case callback of TaskCallback this asyncTask next \<Rightarrow>
        (case asyncTaskFinished this asyncTask result w of
           (_, w1, calls) \<Rightarrow>
             (w1, calls @ (if next then [ProcessNextQueueTask this] else []))))"

text \<open>
  \<open>Array.prototype.flat\<close> (depth 1): an element that is an array is replaced by its
  elements, read from the store; a dangling address, which no reference is, gives none.
\<close>

definition flat ::
  "'r AsyncTaskHelperResult list list \<Rightarrow> 'r AsyncTaskHelperResult list
     \<Rightarrow> 'r AsyncTaskHelperResult list" where
  "flat arrs xs =
     concat (map (\<lambda>x. case x of Value r \<Rightarrow> [Value r]
                              | ArrayRef a \<Rightarrow> (if a < length arrs then arrs ! a else [])) xs)"

text \<open>
  A completion handler called with the array at address \<open>a\<close>. The caller's handler is
  opaque (its invocation is recorded by \<open>finished\<close>). The sequencing coordinator's handler
  assigns a new, flattened array to \<open>this.asyncTaskResultList\<close> and calls \<open>finished\<close>.
\<close>

definition callFinal ::
  "'r finalCallback \<Rightarrow> nat \<Rightarrow> 'r world \<Rightarrow> 'r world \<times> 'r call list" where
  "callFinal f a w =
     (case f of
        UserCallback _ \<Rightarrow> (w, [])
      | ForwardTo poolCallback \<Rightarrow> (w, [CallBack poolCallback (ArrayRef a)])
      | FlattenInto this \<Rightarrow>
          (let obj = heap w ! this;
               w1 = w\<lparr>arrays := arrays w @ [flat (arrays w) (arrays w ! a)],
                      heap := (heap w)[this := obj\<lparr>asyncTaskResultList := length (arrays w)\<rparr>]\<rparr>
           in case finished this w1 of (_, w2, calls) \<Rightarrow> (w2, calls)))"

text \<open>The scheduler runs the \<open>i\<close>-th pending invocation, if there is one, and forgets it.\<close>

definition deliver :: "nat \<Rightarrow> 'r world \<Rightarrow> 'r world \<times> 'r call list" where
  "deliver i w =
     (if i < length (pending w)
      then (w\<lparr>pending := take i (pending w) @ drop (Suc i) (pending w)\<rparr>,
            [CallBack (fst (pending w ! i)) (Value (snd (pending w ! i)))])
      else (w, []))"

subsection \<open>Running the calls\<close>

text \<open>
  One call: the store after it and the calls it leaves, which run before anything else.
  A call on an address where there is no instance or array does nothing: a reference
  never dangles.
\<close>

definition alive :: "'r world \<Rightarrow> nat \<Rightarrow> bool" where
  "alive w this = (this < length (heap w))"

fun step :: "(nat \<Rightarrow> jsString) \<Rightarrow> 'r call \<Rightarrow> 'r world \<Rightarrow> 'r world \<times> 'r call list" where
  "step g (New options) w = (snd (construct g options w), [])"
| "step g (Add this input) w = (if alive w this then (snd (add g this input w), []) else (w, []))"
| "step g (PoolCall this f) w = (if alive w this then snd (pool g this f w) else (w, []))"
| "step g (QueueCall this f) w = (if alive w this then snd (queue g this f w) else (w, []))"
| "step g (Start this f m) w = (if alive w this then snd (start g this f m w) else (w, []))"
| "step g (Quit this f) w = (if alive w this then snd (quit this f w) else (w, []))"
| "step g (ProcessNextQueueTask this) w =
     (if alive w this then processNextQueueTask this w else (w, []))"
| "step g (RunTask this t next) w =
     (if alive w this then snd (runTask this t next w) else (w, []))"
| "step g (Invoke f callback) w = invoke g f callback w"
| "step g (CallBack (TaskCallback this t next) result) w =
     (if alive w this then callBack (TaskCallback this t next) result w else (w, []))"
| "step g (CallFinal (FlattenInto this) a) w =
     (if alive w this \<and> a < length (arrays w) then callFinal (FlattenInto this) a w else (w, []))"
| "step g (CallFinal f a) w = callFinal f a w"
| "step g (Deliver i) w = deliver i w"
| "step g Hang w = (w, [Hang])"

text \<open>
  \<open>exec g n\<close> runs \<open>n\<close> steps, or fewer when no call is left: the first call, with the
  calls it leaves put in front of the others. \<open>run g n w calls\<close> is the store when the
  calls have all returned within \<open>n\<close> steps, and \<open>None\<close> when they have not.
\<close>

fun exec ::
  "(nat \<Rightarrow> jsString) \<Rightarrow> nat \<Rightarrow> 'r world \<times> 'r call list \<Rightarrow> 'r world \<times> 'r call list" where
  "exec g 0 cfg = cfg"
| "exec g (Suc n) (w, []) = (w, [])"
| "exec g (Suc n) (w, c # cs) = (case step g c w of (w', calls) \<Rightarrow> exec g n (w', calls @ cs))"

definition run :: "(nat \<Rightarrow> jsString) \<Rightarrow> nat \<Rightarrow> 'r world \<Rightarrow> 'r call list \<Rightarrow> 'r world option" where
  "run g n w calls = (case exec g n (w, calls) of (w', []) \<Rightarrow> Some w' | (w', _ # _) \<Rightarrow> None)"

subsection \<open>Auxiliary functions for the statements\<close>

text \<open>
  The tasks that the constructor pushes for the \<open>asyncTaskList\<close> option, one call of
  \<open>add\<close> for each candidate, when the next UUID is the \<open>n\<close>-th; the function of a
  candidate; the candidates of the options.
\<close>

fun constructorTasks ::
  "(nat \<Rightarrow> jsString) \<Rightarrow> nat \<Rightarrow> 'r taskCandidate list \<Rightarrow> 'r AsyncTaskHelperTask list" where
  "constructorTasks g n [] = []"
| "constructorTasks g n (c # cs) =
     nameTask 0 (wrapCandidate (g n) c) # constructorTasks g (Suc n) cs"

definition taskFunctionOf :: "'r taskCandidate \<Rightarrow> 'r taskFunction" where
  "taskFunctionOf c = (case c of Function f \<Rightarrow> f | TaskRecord f _ \<Rightarrow> f)"

definition optionTasks :: "'r AsyncTaskHelperOptions \<Rightarrow> 'r taskCandidate list" where
  "optionTasks options = (case asyncTaskList_opt options of Some l \<Rightarrow> l | None \<Rightarrow> [])"

text \<open>
  What a task function of the caller passes to its callback: before it returns, later,
  and altogether; whether it calls back exactly once. A chunk function is not one of the
  caller's.
\<close>

definition nowValues :: "'r AsyncTaskHelperTask \<Rightarrow> 'r list" where
  "nowValues t = (case asyncTaskFunction t of UserFunction _ now _ \<Rightarrow> now
                                              | ChunkFunction _ _ \<Rightarrow> [])"

definition laterValues :: "'r AsyncTaskHelperTask \<Rightarrow> 'r list" where
  "laterValues t = (case asyncTaskFunction t of UserFunction _ _ later \<Rightarrow> later
                                                | ChunkFunction _ _ \<Rightarrow> [])"

definition callbackValues :: "'r AsyncTaskHelperTask \<Rightarrow> 'r list" where
  "callbackValues t = nowValues t @ laterValues t"

definition callsBackOnce :: "'r AsyncTaskHelperTask \<Rightarrow> bool" where
  "callsBackOnce t = (case asyncTaskFunction t of
                        UserFunction _ now later \<Rightarrow> length now + length later = 1
                      | ChunkFunction _ _ \<Rightarrow> False)"

text \<open>
  The pending invocations that running the tasks \<open>ts\<close> of the instance \<open>this\<close> without
  \<open>next\<close> leaves, in the order of the tasks.
\<close>

definition pendingOf ::
  "nat \<Rightarrow> 'r AsyncTaskHelperTask list \<Rightarrow> ('r taskCallback \<times> 'r) list" where
  "pendingOf this ts =
     concat (map (\<lambda>t. map (\<lambda>r. (TaskCallback this t False, r)) (laterValues t)) ts)"

text \<open>
  A schedule is the list of the indices that the scheduler delivers, each an index into
  what is pending at that moment. \<open>inRange is k\<close>: every index of \<open>is\<close> is in range,
  when \<open>k\<close> invocations are pending at first. \<open>arrived is pd\<close> are the entries of \<open>pd\<close>
  that the schedule delivers, in the order of delivery, and \<open>waiting is pd\<close> those it
  leaves.
\<close>

fun inRange :: "nat list \<Rightarrow> nat \<Rightarrow> bool" where
  "inRange [] k = True"
| "inRange (i # is) k = (i < k \<and> inRange is (k - 1))"

fun arrived :: "nat list \<Rightarrow> 'a list \<Rightarrow> 'a list" where
  "arrived [] pd = []"
| "arrived (i # is) pd = pd ! i # arrived is (take i pd @ drop (Suc i) pd)"

fun waiting :: "nat list \<Rightarrow> 'a list \<Rightarrow> 'a list" where
  "waiting [] pd = pd"
| "waiting (i # is) pd = waiting is (take i pd @ drop (Suc i) pd)"

text \<open>
  What \<open>finished\<close> records and leaves to run for a handler that may be null; and the
  handlers that are the caller's own, or null.
\<close>

definition firedEntry ::
  "nat \<Rightarrow> 'r finalCallback option \<Rightarrow> 'r AsyncTaskHelperResult list
     \<Rightarrow> (nat \<times> 'r finalCallback \<times> 'r AsyncTaskHelperResult list) list" where
  "firedEntry this h rs = (case h of None \<Rightarrow> [] | Some f \<Rightarrow> [(this, f, rs)])"

definition finalCalls :: "'r finalCallback option \<Rightarrow> nat \<Rightarrow> 'r call list" where
  "finalCalls h a = (case h of None \<Rightarrow> [] | Some f \<Rightarrow> [CallFinal f a])"

definition callerHandler :: "'r finalCallback option \<Rightarrow> bool" where
  "callerHandler h = (case h of None \<Rightarrow> True | Some (UserCallback _) \<Rightarrow> True | Some _ \<Rightarrow> False)"

text \<open>\<open>reaches g cfg cfg'\<close>: running from \<open>cfg\<close> comes to \<open>cfg'\<close> after some steps.\<close>

definition reaches ::
  "(nat \<Rightarrow> jsString) \<Rightarrow> 'r world \<times> 'r call list \<Rightarrow> 'r world \<times> 'r call list \<Rightarrow> bool" where
  "reaches g cfg cfg' = (\<exists>n. exec g n cfg = cfg')"

text \<open>
  For the lifecycle: \<open>stable w w'\<close> says that no instance of \<open>w\<close> is lost in \<open>w'\<close> and
  that a flag that is set in \<open>w\<close> is set in \<open>w'\<close>; \<open>firedOnce w\<close> says that no instance
  occurs twice among the handler invocations, and that an instance that occurs is
  finished.
\<close>

definition stable :: "'r world \<Rightarrow> 'r world \<Rightarrow> bool" where
  "stable w w' = (length (heap w) \<le> length (heap w') \<and>
     (\<forall>this<length (heap w).
        (isStarted (heap w ! this) \<longrightarrow> isStarted (heap w' ! this)) \<and>
        (isFinished (heap w ! this) \<longrightarrow> isFinished (heap w' ! this))))"

definition firedOnce :: "'r world \<Rightarrow> bool" where
  "firedOnce w = (distinct (map fst (fired w)) \<and>
     (\<forall>e\<in>set (fired w). fst e < length (heap w) \<and> isFinished (heap w ! fst e)))"

definition keeps :: "'r world \<Rightarrow> 'r world \<Rightarrow> bool" where
  "keeps w w' = (stable w w' \<and> (firedOnce w \<longrightarrow> firedOnce w'))"

text \<open>Options with a task list only, and a task that never calls back, for examples.\<close>

definition exampleOptions :: "nat taskCandidate list \<Rightarrow> nat AsyncTaskHelperOptions" where
  "exampleOptions l =
     \<lparr>debug = None, taskMode_opt = None, asyncTaskList_opt = Some l, finalCallback_opt = None\<rparr>"

definition neverTask :: "nat taskCandidate" where
  "neverTask = Function (UserFunction (codeUnits ''never'') [] [])"

text \<open>A UUID source for examples.\<close>

definition exampleUUID :: "nat \<Rightarrow> jsString" where
  "exampleUUID k = (codeUnits ''uuid-'') @ showNat k"

text \<open>
  A coordinator constructed in \<open>Pool\<close> mode with three tasks that never call back, and
  the store after \<open>start(handler)\<close> on it.
\<close>

definition poolWorld :: "nat world" where
  "poolWorld = snd (construct exampleUUID
      ((exampleOptions [neverTask, neverTask, neverTask])\<lparr>taskMode_opt := Some Pool\<rparr>) emptyWorld)"

definition startedWorld :: "nat world" where
  "startedWorld = fst (snd (start exampleUUID 0 (Some (UserCallback 1)) None poolWorld))"

text \<open>
  Tasks that call back once, before returning or later; a run that ends by itself,
  followed by \<open>quit\<close> and by a stray call of a task callback.
\<close>

definition syncTask :: "nat \<Rightarrow> nat taskCandidate" where
  "syncTask r = Function (UserFunction (codeUnits ''sync'') [r] [])"

definition deferredTask :: "nat \<Rightarrow> nat taskCandidate" where
  "deferredTask r = Function (UserFunction (codeUnits ''deferred'') [] [r])"

definition strayCalls :: "nat call list" where
  "strayCalls =
     [New (exampleOptions [syncTask 10]),
      Start 0 (Some (UserCallback 1)) None,
      Quit 0 (Some (UserCallback 2)),
      CallBack (TaskCallback 0 (Task (UserFunction (codeUnits ''sync'') [10] []) (codeUnits ''stray'')) True) (Value 5)]"

text \<open>Three tasks, the first and the last of which call back later.\<close>

definition mixedTasks :: "nat taskCandidate list" where
  "mixedTasks = [deferredTask 10, syncTask 20, deferredTask 30]"

text \<open>Five tasks whose results are their indices, two of them calling back later.\<close>

definition fiveTasks :: "nat taskCandidate list" where
  "fiveTasks = [deferredTask 0, syncTask 1, deferredTask 2, syncTask 3, syncTask 4]"

text \<open>What the statements about pool mode beyond the chunk size speak of: the task as a child
  coordinator stores it, the results of a chunk in arrival order, the schedules that deliver
  every deferred callback of a chunk once, and the store after a chunk has been run.\<close>

definition retrim :: "'r AsyncTaskHelperTask \<Rightarrow> 'r AsyncTaskHelperTask" where
  "retrim t = Task (asyncTaskFunction t) (trim (taskName t))"

definition arrivalOrder :: "'r AsyncTaskHelperTask list \<Rightarrow> nat list \<Rightarrow> 'r list" where
  "arrivalOrder ch is = concat (map nowValues ch) @ arrived is (concat (map laterValues ch))"

definition completeFor :: "'r AsyncTaskHelperTask list \<Rightarrow> nat list \<Rightarrow> bool" where
  "completeFor ch is = (inRange is (length (concat (map laterValues ch))) \<and>
                        length is = length (concat (map laterValues ch)))"

definition chunkCandidates ::
  "bool \<Rightarrow> 'r AsyncTaskHelperTask list list \<Rightarrow> 'r taskCandidate list" where
  "chunkCandidates d chunks = map (\<lambda>ch. TaskRecord (ChunkFunction d ch) NoName) chunks"

definition childCandidates :: "'r AsyncTaskHelperTask list \<Rightarrow> 'r taskCandidate list" where
  "childCandidates ch = map (\<lambda>t. TaskRecord (asyncTaskFunction t) (Named (taskName t))) ch"

definition chunkOf :: "'r AsyncTaskHelperTask \<Rightarrow> 'r AsyncTaskHelperTask list" where
  "chunkOf ct = (case asyncTaskFunction ct of ChunkFunction _ ch \<Rightarrow> ch | UserFunction _ _ _ \<Rightarrow> [])"

definition debugOf :: "'r AsyncTaskHelperTask \<Rightarrow> bool" where
  "debugOf ct = (case asyncTaskFunction ct of ChunkFunction d _ \<Rightarrow> d | UserFunction _ _ _ \<Rightarrow> False)"

definition afterChunk ::
  "(nat \<Rightarrow> jsString) \<Rightarrow> nat \<Rightarrow> 'r AsyncTaskHelperTask \<Rightarrow> nat list \<Rightarrow> 'r world \<Rightarrow> 'r world" where
  "afterChunk g q ct is w =
     (let aq = asyncTaskResultList (heap w ! q);
          ap = length (arrays w);
          rs = map Value (arrivalOrder (chunkOf ct) is)
      in w\<lparr>heap := heap w @
             [\<lparr>taskMode = Pool,
               asyncTaskList = map retrim (chunkOf ct),
               asyncTaskResultList = ap,
               finalCallback = Some (ForwardTo (TaskCallback q ct True)),
               isStarted = True, isFinished = True,
               isDebug = debugOf ct,
               instanceID = (codeUnits ''AsyncTaskHelper::'') @ g (uuidCount w)\<rparr>],
           arrays := (arrays w)[aq := arrays w ! aq @ [ArrayRef ap]] @ [rs],
           uuidCount := Suc (uuidCount w) + length (chunkOf ct),
           invoked := invoked w @ (q, ct) # map (Pair (length (heap w))) (map retrim (chunkOf ct)),
           fired := fired w @ [(length (heap w), ForwardTo (TaskCallback q ct True), rs)]\<rparr>)"

fun afterChunks ::
  "(nat \<Rightarrow> jsString) \<Rightarrow> nat \<Rightarrow> 'r AsyncTaskHelperTask list \<Rightarrow> nat list list \<Rightarrow> 'r world \<Rightarrow> 'r world" where
  "afterChunks g q (ct # cts) (is # iss) w = afterChunks g q cts iss (afterChunk g q ct is w)"
| "afterChunks g q _ _ w = w"

definition chunkTask :: "'r AsyncTaskHelperTask \<Rightarrow> bool" where
  "chunkTask ct = (asyncTaskFunction ct = ChunkFunction (debugOf ct) (chunkOf ct) \<and>
                   chunkOf ct \<noteq> [] \<and> length (chunkOf ct) \<le> asyncPoolChunkSize \<and>
                   list_all callsBackOnce (chunkOf ct))"

text \<open>Sixty-five tasks that call back at once, each with its index.\<close>

definition sixtyFiveTasks :: "nat taskCandidate list" where
  "sixtyFiveTasks = map syncTask [0..<65]"

text \<open>A coordinator constructed in \<open>Pool\<close> mode with these sixty-five tasks.\<close>

definition bigPoolWorld :: "nat world" where
  "bigPoolWorld = snd (construct exampleUUID
      ((exampleOptions sixtyFiveTasks)\<lparr>taskMode_opt := Some Pool\<rparr>) emptyWorld)"

section \<open>Properties of split\<close>

lemma chunksOf_Nil [simp]: "chunksOf n [] = []"
  by (simp add: chunksOf.simps)

lemma chunksOf_step: "0 < n \<Longrightarrow> xs \<noteq> [] \<Longrightarrow> chunksOf n xs = take n xs # chunksOf n (drop n xs)"
  by (subst chunksOf.simps) simp

lemma splitLoop_chunksOf:
  "0 < n \<Longrightarrow> splitLoop n i xs acc = Some (acc @ chunksOf n (drop i xs))"
proof (induction "length xs - i" arbitrary: i acc rule: less_induct)
  case less
  show ?case
  proof (cases "i < length xs")
    case True
    then have ne: "drop i xs \<noteq> []" by simp
    have dec: "length xs - (i + n) < length xs - i" using True less.prems by arith
    have "splitLoop n i xs acc = splitLoop n (i + n) xs (acc @ [slice xs i (i + n)])"
      using True by (subst splitLoop.simps) simp
    also have "\<dots> = Some ((acc @ [slice xs i (i + n)]) @ chunksOf n (drop (i + n) xs))"
      using less.hyps [OF dec less.prems] .
    also have "(acc @ [slice xs i (i + n)]) @ chunksOf n (drop (i + n) xs)
                = acc @ chunksOf n (drop i xs)"
      using chunksOf_step [OF less.prems ne] by (simp add: slice_def add.commute)
    finally show ?thesis .
  next
    case False
    then show ?thesis by (subst splitLoop.simps) simp
  qed
qed

lemma split_chunksOf:
  "split s xs = Some (chunksOf (nat (max 1 (case s of None \<Rightarrow> 0 | Some v \<Rightarrow> v))) xs)"
  by (simp add: split_def splitLoop_chunksOf)

lemma concat_chunksOf: "0 < n \<Longrightarrow> concat (chunksOf n xs) = xs"
proof (induction n xs rule: chunksOf.induct)
  case (1 n xs)
  show ?case
  proof (cases "xs = []")
    case True
    then show ?thesis by simp
  next
    case False
    with 1 show ?thesis by (simp add: chunksOf_step)
  qed
qed

lemma chunksOf_lengths:
  "0 < n \<Longrightarrow> k < length (chunksOf n xs) \<Longrightarrow>
     (Suc k < length (chunksOf n xs) \<longrightarrow> length (chunksOf n xs ! k) = n) \<and>
     1 \<le> length (chunksOf n xs ! k) \<and> length (chunksOf n xs ! k) \<le> n"
proof (induction n xs arbitrary: k rule: chunksOf.induct)
  case (1 n xs)
  show ?case
  proof (cases "xs = []")
    case True
    with "1.prems" show ?thesis by simp
  next
    case False
    note st = chunksOf_step [OF "1.prems"(1) False]
    show ?thesis
    proof (cases k)
      case 0
      have "Suc 0 < length (chunksOf n xs) \<Longrightarrow> n \<le> length xs"
      proof (rule ccontr)
        assume a: "Suc 0 < length (chunksOf n xs)" and b: "\<not> n \<le> length xs"
        then have "drop n xs = []" by simp
        with a st show False by simp
      qed
      with 0 False "1.prems"(1) show ?thesis
        by (auto simp: st Suc_le_eq)
    next
      case (Suc j)
      with "1.prems" st have "j < length (chunksOf n (drop n xs))" by simp
      from "1.IH" [OF _ "1.prems"(1) this] False "1.prems"(1) Suc show ?thesis
        by (simp add: st)
    qed
  qed
qed

lemma split_example: "split (Some 2) [10, 20, 30 :: nat] = Some [[10, 20], [30]]"
  by (simp add: split_chunksOf chunksOf.simps)

text \<open>
  Claim C10. For every array \<open>a\<close> and every size \<open>s\<close>, an integer or null, \<open>a.split(s)\<close>
  returns (the loop ends), and what it returns is a list of chunks whose concatenation
  is \<open>a\<close>; every chunk but the last has exactly \<open>max 1 s\<close> elements (\<open>max 1 0\<close> for a
  null size), and every chunk, so also the last, has between 1 and \<open>max 1 s\<close> elements.
\<close>

theorem split_contiguous_chunks:
  "\<exists>chunks. split s a = Some chunks \<and> concat chunks = a \<and>
     (\<forall>k<length chunks.
        (Suc k < length chunks \<longrightarrow>
           length (chunks ! k) = nat (max 1 (case s of None \<Rightarrow> 0 | Some v \<Rightarrow> v))) \<and>
        1 \<le> length (chunks ! k) \<and>
        length (chunks ! k) \<le> nat (max 1 (case s of None \<Rightarrow> 0 | Some v \<Rightarrow> v)))"
proof -
  let ?m = "nat (max 1 (case s of None \<Rightarrow> 0 | Some v \<Rightarrow> v))"
  have pos: "0 < ?m" by simp
  show ?thesis
    using split_chunksOf [of s a] concat_chunksOf [OF pos, of a] chunksOf_lengths [OF pos, of _ a]
    by blast
qed

theorem split_contiguous_chunks_witness:
  "\<exists>chunks. split (Some 2) [10, 20, 30 :: nat] = Some chunks \<and> concat chunks = [10, 20, 30] \<and>
      0 < length chunks \<and> Suc 0 < length chunks \<and> length (chunks ! 0) = 2 \<and>
      1 \<le> length (chunks ! 1) \<and> length (chunks ! 1) \<le> 2"
proof -
  let ?m = "nat (max 1 (case Some 2 of None \<Rightarrow> 0 | Some v \<Rightarrow> v))"
  from split_contiguous_chunks [of "Some 2" "[10, 20, 30 :: nat]"]
  obtain chunks where h: "split (Some 2) [10, 20, 30 :: nat] = Some chunks \<and>
     concat chunks = [10, 20, 30] \<and>
     (\<forall>k<length chunks.
        (Suc k < length chunks \<longrightarrow> length (chunks ! k) = ?m) \<and>
        1 \<le> length (chunks ! k) \<and> length (chunks ! k) \<le> ?m)" ..
  from h have eq: "chunks = [[10, 20], [30]]" by (simp add: split_example)
  then have len: "0 < length chunks" "Suc 0 < length chunks" "1 < length chunks" by simp_all
  from h len have "length (chunks ! 0) = 2" "1 \<le> length (chunks ! 1)" "length (chunks ! 1) \<le> 2"
    by auto
  with h len show ?thesis by blast
qed

section \<open>Running calls\<close>

lemma exec_Nil [simp]: "exec g n (w, []) = (w, [])"
  by (cases n) simp_all

lemma exec_add: "exec g (n + m) cfg = exec g m (exec g n cfg)"
proof (induction g n cfg rule: exec.induct)
  case (1 g cfg)
  then show ?case by simp
next
  case (2 g n w)
  then show ?case by simp
next
  case (3 g n w c cs)
  then show ?case by (simp split: prod.splits)
qed

lemma run_Nil [simp]: "run g n w [] = Some w"
  by (simp add: run_def)

lemma run_0 [simp]: "run g 0 w (c # cs) = None"
  by (simp add: run_def)

lemma run_Suc [simp]:
  "run g (Suc n) w (c # cs) = run g n (fst (step g c w)) (snd (step g c w) @ cs)"
  by (simp add: run_def split: prod.splits)

section \<open>The constructor\<close>

lemma add_Single:
  "add g this (Single c) w =
     (this, w\<lparr>heap := (heap w)[this := (heap w ! this)
                  \<lparr>asyncTaskList := asyncTaskList (heap w ! this)
                                      @ [nameTask 0 (wrapCandidate (g (uuidCount w)) c)]\<rparr>],
              uuidCount := Suc (uuidCount w)\<rparr>)"
  by (simp add: add_def candidates_def availableAsyncTaskList_def Let_def)

lemma fold_add_Single:
  "this < length (heap w) \<Longrightarrow>
   fold (\<lambda>task w'. snd (add g this (Single task) w')) cs w =
     w\<lparr>heap := (heap w)[this := (heap w ! this)
            \<lparr>asyncTaskList := asyncTaskList (heap w ! this) @ constructorTasks g (uuidCount w) cs\<rparr>],
       uuidCount := uuidCount w + length cs\<rparr>"
proof (induction cs arbitrary: w)
  case Nil
  then show ?case by simp
next
  case (Cons c cs)
  then show ?case by (simp add: add_Single)
qed

lemma construct_eq:
  "construct g options w =
     (length (heap w),
      w\<lparr>heap := heap w @
           [\<lparr>taskMode = (case taskMode_opt options of Some m \<Rightarrow> m | None \<Rightarrow> Queue),
             asyncTaskList = constructorTasks g (Suc (uuidCount w)) (optionTasks options),
             asyncTaskResultList = length (arrays w),
             finalCallback = finalCallback_opt options,
             isStarted = False, isFinished = False,
             isDebug = (case debug options of Some d \<Rightarrow> d | None \<Rightarrow> False),
             instanceID = (codeUnits ''AsyncTaskHelper::'') @ g (uuidCount w)\<rparr>],
        arrays := arrays w @ [[]],
        uuidCount := Suc (uuidCount w) + length (optionTasks options)\<rparr>)"
  by (simp add: construct_def Let_def fold_add_Single optionTasks_def)

section \<open>Single calls\<close>

lemma poolWorld_fields:
  "alive poolWorld 0" "taskMode (heap poolWorld ! 0) = Pool" "\<not> isStarted (heap poolWorld ! 0)"
  "asyncTaskList (heap poolWorld ! 0) \<noteq> []" "\<not> isFinished (heap poolWorld ! 0)"
  "finalCallback (heap poolWorld ! 0) = None"
  by (simp_all add: poolWorld_def construct_eq emptyWorld_def alive_def exampleOptions_def
        optionTasks_def neverTask_def)

lemma startedWorld_fields:
  "alive startedWorld 0" "isStarted (heap startedWorld ! 0)" "\<not> isFinished (heap startedWorld ! 0)"
  "finalCallback (heap startedWorld ! 0) = Some (UserCallback 1)" "fired startedWorld = []"
  "taskMode (heap startedWorld ! 0) = Queue"
  by (simp_all add: startedWorld_def start_def Let_def poolWorld_def construct_eq emptyWorld_def
        alive_def exampleOptions_def optionTasks_def neverTask_def)

text \<open>
  Claim C7. On a coordinator that has been started, \<open>start\<close>, \<open>queue\<close> and \<open>pool\<close>
  return the same instance and leave no call to run (no dispatch, no task run): the
  store changes in two fields of the instance only, \<open>finalCallback\<close>, which takes the
  handler passed if one is, and \<open>taskMode\<close>, which takes the mode passed (\<open>Queue\<close> for
  a \<open>start\<close> without mode).
\<close>

theorem restart_is_noop:
  assumes "alive w this" and "isStarted (heap w ! this)"
  shows "start g this f m w =
           (this,
            w\<lparr>heap := (heap w)[this := (heap w ! this)
                 \<lparr>finalCallback := (case f of Some h \<Rightarrow> Some h | None \<Rightarrow> finalCallback (heap w ! this)),
                  taskMode := (case m of None \<Rightarrow> Queue | Some x \<Rightarrow> x)\<rparr>]\<rparr>,
            [])
       \<and> queue g this f w =
           (this,
            w\<lparr>heap := (heap w)[this := (heap w ! this)
                 \<lparr>finalCallback := (case f of Some h \<Rightarrow> Some h | None \<Rightarrow> finalCallback (heap w ! this)),
                  taskMode := Queue\<rparr>]\<rparr>,
            [])
       \<and> pool g this f w =
           (this,
            w\<lparr>heap := (heap w)[this := (heap w ! this)
                 \<lparr>finalCallback := (case f of Some h \<Rightarrow> Some h | None \<Rightarrow> finalCallback (heap w ! this)),
                  taskMode := Pool\<rparr>]\<rparr>,
            [])"
  using assms by (simp add: start_def queue_def pool_def Let_def alive_def)

theorem restart_is_noop_witness:
  "alive startedWorld 0 \<and> isStarted (heap startedWorld ! 0)
   \<and> fst (pool exampleUUID 0 (Some (UserCallback 2)) startedWorld) = 0
   \<and> snd (snd (pool exampleUUID 0 (Some (UserCallback 2)) startedWorld)) = []
   \<and> invoked (fst (snd (pool exampleUUID 0 (Some (UserCallback 2)) startedWorld))) = invoked startedWorld
   \<and> finalCallback (heap (fst (snd (pool exampleUUID 0 (Some (UserCallback 2)) startedWorld))) ! 0)
        = Some (UserCallback 2)
   \<and> taskMode (heap (fst (snd (pool exampleUUID 0 (Some (UserCallback 2)) startedWorld))) ! 0) = Pool"
  using restart_is_noop [OF startedWorld_fields(1,2), of exampleUUID "Some (UserCallback 2)"]
    startedWorld_fields
  by (simp add: alive_def)

text \<open>
  Claim C4, as stated: \<open>quit()\<close> without argument right after \<open>start(handler)\<close>, with
  three tasks that never call back, makes the completion handler fire once. It does not:
  the coordinator is finished, its handler is null, and no handler has been invoked.
\<close>

theorem quit_without_handler_counterexample:
  "map_option (\<lambda>w. (isFinished (heap w ! 0), finalCallback (heap w ! 0), fired w))
     (run exampleUUID 10 emptyWorld
        [New (exampleOptions [neverTask, neverTask, neverTask]),
         Start 0 (Some (UserCallback 1)) None, Quit 0 None]) = Some (True, None, [])"
  by code_simp

text \<open>
  Claim C4, amended. \<open>quit(handler?)\<close> returns the same instance and always replaces the
  completion handler: by the one supplied, or by null when none is. If the coordinator
  was not finished, it becomes finished at once, whatever tasks are pending, and the
  handler supplied to \<open>quit\<close>, if there is one, is invoked once with the result list as
  it is; without a handler argument nothing is invoked. If it was finished already,
  nothing is invoked.
\<close>

theorem quit_replaces_handler:
  assumes "alive w this"
  shows "quit this f w =
          (if isFinished (heap w ! this)
           then (this, w\<lparr>heap := (heap w)[this := (heap w ! this)\<lparr>finalCallback := f\<rparr>]\<rparr>, [])
           else (this,
                 w\<lparr>heap := (heap w)[this := (heap w ! this)\<lparr>finalCallback := f, isFinished := True\<rparr>],
                   fired := fired w @ (case f of None \<Rightarrow> [] | Some h \<Rightarrow> [(this, h, results w this)])\<rparr>,
                 (case f of None \<Rightarrow> []
                          | Some h \<Rightarrow> [CallFinal h (asyncTaskResultList (heap w ! this))])))"
  using assms
  by (simp add: quit_def finished_def Let_def alive_def results_def split: option.splits)

theorem quit_replaces_handler_witness:
  "alive startedWorld 0
   \<and> finalCallback (heap startedWorld ! 0) = Some (UserCallback 1)
   \<and> finalCallback (heap (fst (snd (quit 0 None startedWorld))) ! 0) = None
   \<and> isFinished (heap (fst (snd (quit 0 None startedWorld))) ! 0)
   \<and> fired (fst (snd (quit 0 None startedWorld))) = []
   \<and> fired (fst (snd (quit 0 (Some (UserCallback 2)) startedWorld)))
        = [(0, UserCallback 2, results startedWorld 0)]"
  using quit_replaces_handler [OF startedWorld_fields(1), of None]
    quit_replaces_handler [OF startedWorld_fields(1), of "Some (UserCallback 2)"]
    startedWorld_fields
  by (simp add: alive_def)

text \<open>
  Claim C6. A coordinator constructed without tasks and started, in either mode and
  with or without a handler argument: \<open>start\<close> returns it started and finished, no task
  has been run (no call of \<open>runTask\<close> is left, \<open>invoked\<close> is as before), and the completion
  handler, the one passed or else the one of the options, has been invoked with the
  empty result list; its body is the only call left.
\<close>

theorem start_empty_registry:
  assumes "optionTasks options = []"
  shows "start g (fst (construct g options w)) f m (snd (construct g options w)) =
          (length (heap w),
           (snd (construct g options w))
             \<lparr>heap := heap w @
                 [(heap (snd (construct g options w)) ! length (heap w))
                    \<lparr>finalCallback := (case f of Some h \<Rightarrow> Some h | None \<Rightarrow> finalCallback_opt options),
                     taskMode := (case m of None \<Rightarrow> Queue | Some x \<Rightarrow> x),
                     isStarted := True, isFinished := True\<rparr>],
              fired := fired w @
                 (case (case f of Some h \<Rightarrow> Some h | None \<Rightarrow> finalCallback_opt options) of
                    None \<Rightarrow> [] | Some h \<Rightarrow> [(length (heap w), h, [])])\<rparr>,
           (case (case f of Some h \<Rightarrow> Some h | None \<Rightarrow> finalCallback_opt options) of
              None \<Rightarrow> [] | Some h \<Rightarrow> [CallFinal h (length (arrays w))]))"
  using assms
  by (simp add: construct_eq start_def finished_def Let_def split: option.splits)

theorem start_empty_registry_witness:
  "optionTasks (exampleOptions []) = []
   \<and> isFinished (heap (fst (snd (start exampleUUID
          (fst (construct exampleUUID (exampleOptions []) emptyWorld)) (Some (UserCallback 1)) (Some Pool)
          (snd (construct exampleUUID (exampleOptions []) emptyWorld))))) ! 0)
   \<and> fired (fst (snd (start exampleUUID
          (fst (construct exampleUUID (exampleOptions []) emptyWorld)) (Some (UserCallback 1)) (Some Pool)
          (snd (construct exampleUUID (exampleOptions []) emptyWorld))))) = [(0, UserCallback 1, [])]
   \<and> invoked (fst (snd (start exampleUUID
          (fst (construct exampleUUID (exampleOptions []) emptyWorld)) (Some (UserCallback 1)) (Some Pool)
          (snd (construct exampleUUID (exampleOptions []) emptyWorld))))) = []"
proof -
  have h: "optionTasks (exampleOptions []) = []"
    by (simp add: optionTasks_def exampleOptions_def)
  show ?thesis
    using h start_empty_registry [OF h, of exampleUUID "emptyWorld :: nat world" "Some (UserCallback 1)" "Some Pool"]
    by (simp add: emptyWorld_def construct_eq)
qed

lemma nth_availableAsyncTaskList:
  "k < length cs \<Longrightarrow>
     availableAsyncTaskList g n cs ! k = nameTask k (wrapCandidate (g (n + k)) (cs ! k))"
  by (simp add: availableAsyncTaskList_def nth_enumerate_eq)

lemma length_availableAsyncTaskList [simp]: "length (availableAsyncTaskList g n cs) = length cs"
  by (simp add: availableAsyncTaskList_def)

lemma asyncTaskFunction_nameTask:
  "asyncTaskFunction (nameTask k (wrapCandidate u c)) = taskFunctionOf c"
  by (simp add: nameTask_def wrapCandidate_def taskFunctionOf_def
           split: taskCandidate.splits nameField.splits)

lemma trim_example:
  "trim (0x00A0 # codeUnits '' named '' @ [0x3000]) = codeUnits ''named''"
  by (simp add: trim_def isWhiteSpace_def codeUnits_def)

lemma task_eqI: "asyncTaskFunction t = f \<Longrightarrow> taskName t = n \<Longrightarrow> t = Task f n"
  by (cases t) simp

text \<open>
  Claim C8. \<open>add\<close> takes a task record, a bare function, an array of them or a
  null-like value. It returns the same instance; a null-like argument leaves the store
  as it is; otherwise only the registry of the instance changes: it is the old one
  followed by one task for each candidate, in order, with the candidate's function. The
  name of the task is the trimmed name of the record if it has one, the trimmed UUID drawn
  for the candidate if it is a bare function or a record without name, and the index, \<open>#\<close>
  and the name of the function if the record's name is null.
\<close>

theorem add_appends_in_order:
  assumes "alive w this"
  shows "fst (add g this input w) = this
       \<and> add g this NullLike w = (this, w)
       \<and> (\<forall>cs. candidates input = Some cs \<longrightarrow>
            heap (snd (add g this input w))
              = (heap w)[this := (heap w ! this)
                   \<lparr>asyncTaskList := asyncTaskList (heap w ! this)
                                       @ availableAsyncTaskList g (uuidCount w) cs\<rparr>]
          \<and> asyncTaskList (heap (snd (add g this input w)) ! this)
              = asyncTaskList (heap w ! this) @ availableAsyncTaskList g (uuidCount w) cs
          \<and> length (availableAsyncTaskList g (uuidCount w) cs) = length cs
          \<and> map asyncTaskFunction (availableAsyncTaskList g (uuidCount w) cs) = map taskFunctionOf cs
          \<and> (\<forall>k<length cs.
                taskName (availableAsyncTaskList g (uuidCount w) cs ! k)
                  = trim (case cs ! k of
                            Function f \<Rightarrow> g (uuidCount w + k)
                          | TaskRecord f NoName \<Rightarrow> g (uuidCount w + k)
                          | TaskRecord f NullName \<Rightarrow> showNat k @ codeUnits ''#'' @ functionName f
                          | TaskRecord f (Named s) \<Rightarrow> s))
          \<and> (\<forall>k<length cs. \<forall>f. cs ! k = Function f \<longrightarrow>
                availableAsyncTaskList g (uuidCount w) cs ! k = Task f (trim (g (uuidCount w + k)))))"
proof (intro conjI allI impI)
  show "fst (add g this input w) = this"
    by (simp add: add_def Let_def split: option.splits)
  show "add g this NullLike w = (this, w)"
    by (simp add: add_def candidates_def)
next
  fix cs assume cs: "candidates input = Some cs"
  show "heap (snd (add g this input w))
              = (heap w)[this := (heap w ! this)
                   \<lparr>asyncTaskList := asyncTaskList (heap w ! this)
                                       @ availableAsyncTaskList g (uuidCount w) cs\<rparr>]"
    using cs by (simp add: add_def Let_def)
  show "asyncTaskList (heap (snd (add g this input w)) ! this)
              = asyncTaskList (heap w ! this) @ availableAsyncTaskList g (uuidCount w) cs"
    using assms cs by (simp add: add_def Let_def alive_def)
  show "length (availableAsyncTaskList g (uuidCount w) cs) = length cs"
    by simp
  show "map asyncTaskFunction (availableAsyncTaskList g (uuidCount w) cs) = map taskFunctionOf cs"
    by (rule nth_equalityI) (simp_all add: nth_availableAsyncTaskList asyncTaskFunction_nameTask)
next
  fix cs k assume "candidates input = Some cs" and k: "k < length cs"
  then show "taskName (availableAsyncTaskList g (uuidCount w) cs ! k)
                  = trim (case cs ! k of
                            Function f \<Rightarrow> g (uuidCount w + k)
                          | TaskRecord f NoName \<Rightarrow> g (uuidCount w + k)
                          | TaskRecord f NullName \<Rightarrow> showNat k @ codeUnits ''#'' @ functionName f
                          | TaskRecord f (Named s) \<Rightarrow> s)"
    by (simp add: nth_availableAsyncTaskList nameTask_def wrapCandidate_def
             split: taskCandidate.splits nameField.splits)
next
  fix cs k f assume "candidates input = Some cs" "k < length cs" "cs ! k = Function f"
  then show "availableAsyncTaskList g (uuidCount w) cs ! k = Task f (trim (g (uuidCount w + k)))"
    by (simp add: nth_availableAsyncTaskList nameTask_def wrapCandidate_def)
qed

theorem add_appends_in_order_witness:
  "alive poolWorld 0
   \<and> candidates (Several [Function (UserFunction (codeUnits ''f'') [10 :: nat] []),
                            TaskRecord (UserFunction (codeUnits ''h'') [] [20])
                              (Named (0x00A0 # codeUnits '' named '' @ [0x3000])),
                            TaskRecord (UserFunction (codeUnits ''k'') [30] []) NullName])
       = Some [Function (UserFunction (codeUnits ''f'') [10] []),
               TaskRecord (UserFunction (codeUnits ''h'') [] [20])
                 (Named (0x00A0 # codeUnits '' named '' @ [0x3000])),
               TaskRecord (UserFunction (codeUnits ''k'') [30] []) NullName]
   \<and> fst (add exampleUUID 0
         (Several [Function (UserFunction (codeUnits ''f'') [10] []),
                   TaskRecord (UserFunction (codeUnits ''h'') [] [20])
                     (Named (0x00A0 # codeUnits '' named '' @ [0x3000])),
                   TaskRecord (UserFunction (codeUnits ''k'') [30] []) NullName]) poolWorld) = 0
   \<and> drop 3 (asyncTaskList (heap (snd (add exampleUUID 0
         (Several [Function (UserFunction (codeUnits ''f'') [10] []),
                   TaskRecord (UserFunction (codeUnits ''h'') [] [20])
                     (Named (0x00A0 # codeUnits '' named '' @ [0x3000])),
                   TaskRecord (UserFunction (codeUnits ''k'') [30] []) NullName]) poolWorld)) ! 0))
       = [Task (UserFunction (codeUnits ''f'') [10] []) (trim (exampleUUID 4)),
          Task (UserFunction (codeUnits ''h'') [] [20]) (codeUnits ''named''),
          Task (UserFunction (codeUnits ''k'') [30] []) (codeUnits ''2#k'')]"
proof -
  let ?cs = "[Function (UserFunction (codeUnits ''f'') [10] []),
              TaskRecord (UserFunction (codeUnits ''h'') [] [20])
                (Named (0x00A0 # codeUnits '' named '' @ [0x3000])),
              TaskRecord (UserFunction (codeUnits ''k'') [30] []) NullName] :: nat taskCandidate list"
  let ?new = "availableAsyncTaskList exampleUUID (uuidCount poolWorld) ?cs"
  have c: "candidates (Several ?cs) = Some ?cs" by (simp add: candidates_def)
  have u: "uuidCount poolWorld = 4" "length (asyncTaskList (heap poolWorld ! 0)) = 3"
    by (simp_all add: poolWorld_def construct_eq emptyWorld_def exampleOptions_def optionTasks_def)
  have two: "trim (showNat 2 @ codeUnits ''#'' @ codeUnits ''k'') = codeUnits ''2#k''"
    by (simp add: trim_def isWhiteSpace_def codeUnits_def showNat.simps digitUnit_def)
  from add_appends_in_order [OF poolWorld_fields(1), of exampleUUID "Several ?cs"] c
  have r: "fst (add exampleUUID 0 (Several ?cs) poolWorld) = 0"
    and a: "asyncTaskList (heap (snd (add exampleUUID 0 (Several ?cs) poolWorld)) ! 0)
             = asyncTaskList (heap poolWorld ! 0) @ ?new"
    and fs: "map asyncTaskFunction ?new = map taskFunctionOf ?cs"
    and l: "length ?new = length ?cs"
    and n: "\<forall>k<length ?cs. taskName (?new ! k)
                  = trim (case ?cs ! k of
                            Function f \<Rightarrow> exampleUUID (uuidCount poolWorld + k)
                          | TaskRecord f NoName \<Rightarrow> exampleUUID (uuidCount poolWorld + k)
                          | TaskRecord f NullName \<Rightarrow> showNat k @ codeUnits ''#'' @ functionName f
                          | TaskRecord f (Named s) \<Rightarrow> s)"
    by blast+
  have names: "map taskName ?new
       = [trim (exampleUUID 4), codeUnits ''named'', codeUnits ''2#k'']"
  proof (rule nth_equalityI)
    show "length (map taskName ?new)
            = length [trim (exampleUUID 4), codeUnits ''named'', codeUnits ''2#k'']"
      using l by simp
    fix k assume "k < length (map taskName ?new)"
    then have k: "k < 3" using l by simp
    then consider "k = 0" | "k = Suc 0" | "k = 2" by arith
    then show "map taskName ?new ! k
                 = [trim (exampleUUID 4), codeUnits ''named'', codeUnits ''2#k''] ! k"
    proof cases
      case 1
      with n l show ?thesis by (simp add: u)
    next
      case 2
      with n l show ?thesis by (simp add: trim_example)
    next
      case 3
      with n l show ?thesis by (simp add: two functionName_def)
    qed
  qed
  have "?new = [Task (UserFunction (codeUnits ''f'') [10] []) (trim (exampleUUID 4)),
          Task (UserFunction (codeUnits ''h'') [] [20]) (codeUnits ''named''),
          Task (UserFunction (codeUnits ''k'') [30] []) (codeUnits ''2#k'')]"
  proof -
    have "map asyncTaskFunction ?new
            = [UserFunction (codeUnits ''f'') [10] [], UserFunction (codeUnits ''h'') [] [20],
               UserFunction (codeUnits ''k'') [30] []]"
      using fs by (simp add: taskFunctionOf_def)
    with names show ?thesis
      by (auto simp: map_eq_Cons_conv intro: task_eqI)
  qed
  with a u c r poolWorld_fields(1) show ?thesis by simp
qed

section \<open>The lifecycle flags and the completion handler\<close>

lemma keeps_refl [simp]: "keeps w w"
  by (simp add: keeps_def stable_def)

lemma keeps_trans: "keeps w1 w2 \<Longrightarrow> keeps w2 w3 \<Longrightarrow> keeps w1 w3"
  by (fastforce simp: keeps_def stable_def)

lemma keeps_update:
  assumes "heap w' = (heap w)[this := obj]" and "fired w' = fired w"
    and "this < length (heap w) \<Longrightarrow> isStarted (heap w ! this) \<Longrightarrow> isStarted obj"
    and "this < length (heap w) \<Longrightarrow> isFinished (heap w ! this) \<Longrightarrow> isFinished obj"
  shows "keeps w w'"
proof (cases "this < length (heap w)")
  case True
  with assms show ?thesis
    by (auto simp: keeps_def stable_def firedOnce_def nth_list_update)
next
  case False
  then have "(heap w)[this := obj] = heap w" by (simp add: list_update_beyond)
  with assms(1,2) show ?thesis
    by (simp add: keeps_def stable_def firedOnce_def)
qed

lemma keeps_same: "heap w' = heap w \<Longrightarrow> fired w' = fired w \<Longrightarrow> keeps w w'"
  by (simp add: keeps_def stable_def firedOnce_def)

lemma keeps_alloc: "heap w' = heap w @ [obj] \<Longrightarrow> fired w' = fired w \<Longrightarrow> keeps w w'"
  by (auto simp: keeps_def stable_def firedOnce_def nth_append)

lemma keeps_finished:
  assumes "this < length (heap w)"
  shows "keeps w (fst (snd (finished this w)))"
proof (cases "isFinished (heap w ! this)")
  case True
  then show ?thesis by (simp add: finished_def)
next
  case False
  have notin: "firedOnce w \<Longrightarrow> this \<notin> fst ` set (fired w)"
    using False by (auto simp: firedOnce_def)
  show ?thesis
    using False assms notin
    by (cases "finalCallback (heap w ! this)")
       (auto simp: finished_def Let_def keeps_def stable_def firedOnce_def nth_list_update)
qed

lemma keeps_add: "keeps w (snd (add g this input w))"
proof (cases "candidates input")
  case None
  then show ?thesis by (simp add: add_def)
next
  case (Some cs)
  show ?thesis
    by (rule keeps_update [where this = this and obj = "(heap w ! this)
          \<lparr>asyncTaskList := asyncTaskList (heap w ! this) @ availableAsyncTaskList g (uuidCount w) cs\<rparr>"])
       (simp_all add: add_def Let_def Some)
qed

lemma keeps_construct: "keeps w (snd (construct g options w))"
  by (rule keeps_alloc) (simp_all add: construct_eq)

lemma heap_construct_length: "length (heap (snd (construct g options w))) = Suc (length (heap w))"
  by (simp add: construct_eq)

lemma keeps_quit: "this < length (heap w) \<Longrightarrow> keeps w (fst (snd (quit this f w)))"
proof -
  assume a: "this < length (heap w)"
  let ?w1 = "w\<lparr>heap := (heap w)[this := (heap w ! this)\<lparr>finalCallback := f\<rparr>]\<rparr>"
  have 1: "keeps w ?w1"
    by (rule keeps_update [where this = this and obj = "(heap w ! this)\<lparr>finalCallback := f\<rparr>"]) simp_all
  have 2: "keeps ?w1 (fst (snd (finished this ?w1)))" using a by (intro keeps_finished) simp
  from keeps_trans [OF 1 2] show ?thesis
    by (simp add: quit_def Let_def case_prod_unfold)
qed

lemma keeps_asyncTaskFinished:
  "this < length (heap w) \<Longrightarrow> keeps w (fst (snd (asyncTaskFinished this t r w)))"
proof -
  assume a: "this < length (heap w)"
  let ?a = "asyncTaskResultList (heap w ! this)"
  let ?w1 = "w\<lparr>arrays := (arrays w)[?a := arrays w ! ?a @ [r]]\<rparr>"
  have 1: "keeps w ?w1" by (rule keeps_same) simp_all
  have 2: "keeps ?w1 (fst (snd (finished this ?w1)))" using a by (intro keeps_finished) simp
  from 1 keeps_trans [OF 1 2] show ?thesis
    by (simp add: asyncTaskFinished_def Let_def case_prod_unfold)
qed

lemma keeps_start: "this < length (heap w) \<Longrightarrow> keeps w (fst (snd (start g this f m w)))"
proof -
  assume a: "this < length (heap w)"
  let ?obj1 = "(heap w ! this)\<lparr>finalCallback := (case f of Some h \<Rightarrow> Some h | None \<Rightarrow> finalCallback (heap w ! this)),
                     taskMode := (case m of None \<Rightarrow> Queue | Some x \<Rightarrow> x)\<rparr>"
  let ?w1 = "w\<lparr>heap := (heap w)[this := ?obj1]\<rparr>"
  let ?w2 = "w\<lparr>heap := (heap w)[this := ?obj1\<lparr>isStarted := True\<rparr>]\<rparr>"
  have 1: "keeps w ?w1" by (rule keeps_update [where this = this and obj = ?obj1]) simp_all
  have 2: "keeps w ?w2"
    by (rule keeps_update [where this = this and obj = "?obj1\<lparr>isStarted := True\<rparr>"]) simp_all
  have 3: "keeps ?w2 (fst (snd (finished this ?w2)))" using a by (intro keeps_finished) simp
  have 4: "keeps ?w2 (snd (construct g options ?w2))" for options by (rule keeps_construct)
  note k3 = keeps_trans [OF 2 3] and k4 = keeps_trans [OF 2 4]
  show ?thesis
    using 1 2 k3 k4
    by (auto simp: start_def Let_def case_prod_unfold split: option.splits AsyncTaskHelperTaskMode.splits)
qed

lemma keeps_callFinal:
  "(\<forall>this. f = FlattenInto this \<longrightarrow> this < length (heap w)) \<Longrightarrow> keeps w (fst (callFinal f a w))"
proof (cases f)
  case (FlattenInto this)
  assume "\<forall>this. f = FlattenInto this \<longrightarrow> this < length (heap w)"
  with FlattenInto have a: "this < length (heap w)" by simp
  let ?w1 = "w\<lparr>arrays := arrays w @ [flat (arrays w) (arrays w ! a)],
                heap := (heap w)[this := (heap w ! this)\<lparr>asyncTaskResultList := length (arrays w)\<rparr>]\<rparr>"
  have 1: "keeps w ?w1"
    by (rule keeps_update [where this = this
          and obj = "(heap w ! this)\<lparr>asyncTaskResultList := length (arrays w)\<rparr>"]) simp_all
  have 2: "keeps ?w1 (fst (snd (finished this ?w1)))" using a by (intro keeps_finished) simp
  from keeps_trans [OF 1 2] FlattenInto show ?thesis
    by (simp add: callFinal_def Let_def case_prod_unfold)
qed (simp_all add: callFinal_def)

lemma keeps_step: "keeps w (fst (step g c w))"
proof (cases c)
  case (New x1)
  then show ?thesis by (simp add: keeps_construct)
next
  case (Add x21 x22)
  then show ?thesis by (simp add: keeps_add)
next
  case (PoolCall x31 x32)
  then show ?thesis using keeps_start [of x31 w g x32 "Some Pool"]
    by (simp add: alive_def pool_def case_prod_unfold)
next
  case (QueueCall x41 x42)
  then show ?thesis using keeps_start [of x41 w g x42 "Some Queue"]
    by (simp add: alive_def queue_def case_prod_unfold)
next
  case (Start x51 x52 x53)
  then show ?thesis by (simp add: alive_def keeps_start)
next
  case (Quit x61 x62)
  then show ?thesis by (simp add: alive_def keeps_quit)
next
  case (ProcessNextQueueTask x7)
  then show ?thesis
    by (auto simp: alive_def processNextQueueTask_def runTask_def Let_def intro!: keeps_same)
next
  case (RunTask x81 x82 x83)
  then show ?thesis by (auto simp: runTask_def intro!: keeps_same)
next
  case (Invoke f cb)
  then show ?thesis
    by (cases f) (auto simp: invoke_def keeps_construct case_prod_unfold intro!: keeps_same)
next
  case (CallBack cb r)
  then show ?thesis
    using keeps_asyncTaskFinished [of _ w _ r]
    by (cases cb) (auto simp: alive_def callBack_def case_prod_unfold)
next
  case (CallFinal f a)
  then show ?thesis
    using keeps_callFinal [of f w a]
    by (cases f) (auto simp: alive_def)
next
  case (Deliver i)
  then show ?thesis by (auto simp: deliver_def intro!: keeps_same)
next
  case Hang
  then show ?thesis by simp
qed

lemma keeps_exec: "keeps (fst cfg) (fst (exec g n cfg))"
proof (induction g n cfg rule: exec.induct)
  case (3 g n w c cs)
  obtain w' calls where s: "step g c w = (w', calls)" by (cases "step g c w")
  with keeps_step [of w g c] have "keeps w w'" by simp
  with 3 [OF s [symmetric]] s show ?case by (auto intro: keeps_trans)
qed simp_all

lemma firedOnce_emptyWorld: "firedOnce emptyWorld"
  by (simp add: firedOnce_def emptyWorld_def)

lemma distinct_filter_le_1:
  "distinct (map f xs) \<Longrightarrow> length (filter (\<lambda>e. f e = c) xs) \<le> 1"
  by (induction xs) (auto simp: filter_empty_conv image_iff)

text \<open>
  Claim C5. From the empty store, for every list of calls (constructions, \<open>start\<close>,
  \<open>quit\<close>, \<open>add\<close>, callbacks of tasks at any time and any number of times) and at every
  moment of the run: for every instance, a \<open>started\<close> or \<open>finished\<close> flag that is set
  stays set at every later moment, and \<open>finished\<close> has invoked the completion handler
  of the instance at most once.
\<close>

theorem flags_one_way_handler_once:
  "(\<forall>this<length (heap (fst (exec g n (emptyWorld, calls)))).
      (isStarted (heap (fst (exec g n (emptyWorld, calls))) ! this)
         \<longrightarrow> isStarted (heap (fst (exec g (n + k) (emptyWorld, calls))) ! this)) \<and>
      (isFinished (heap (fst (exec g n (emptyWorld, calls))) ! this)
         \<longrightarrow> isFinished (heap (fst (exec g (n + k) (emptyWorld, calls))) ! this)))
   \<and> (\<forall>this. length (filter (\<lambda>e. fst e = this)
                   (fired (fst (exec g (n + k) (emptyWorld, calls))))) \<le> 1)"
proof -
  let ?c1 = "exec g n (emptyWorld, calls)"
  let ?c2 = "exec g (n + k) (emptyWorld, calls)"
  have "keeps (fst ?c1) (fst (exec g k ?c1))" by (rule keeps_exec)
  then have st: "stable (fst ?c1) (fst ?c2)" by (simp add: exec_add keeps_def)
  have "keeps (fst (emptyWorld, calls)) (fst ?c2)" by (rule keeps_exec)
  then have "firedOnce (fst ?c2)" by (simp add: keeps_def firedOnce_emptyWorld)
  then have "distinct (map fst (fired (fst ?c2)))" by (simp add: firedOnce_def)
  from distinct_filter_le_1 [OF this] st show ?thesis by (simp add: stable_def)
qed

theorem flags_one_way_handler_once_witness:
  "0 < length (heap (fst (exec exampleUUID 7 (emptyWorld, strayCalls))))
   \<and> isStarted (heap (fst (exec exampleUUID 7 (emptyWorld, strayCalls))) ! 0)
   \<and> isFinished (heap (fst (exec exampleUUID 7 (emptyWorld, strayCalls))) ! 0)
   \<and> isStarted (heap (fst (exec exampleUUID (7 + 5) (emptyWorld, strayCalls))) ! 0)
   \<and> isFinished (heap (fst (exec exampleUUID (7 + 5) (emptyWorld, strayCalls))) ! 0)
   \<and> length (filter (\<lambda>e. fst e = 0) (fired (fst (exec exampleUUID (7 + 5) (emptyWorld, strayCalls))))) \<le> 1
   \<and> fired (fst (exec exampleUUID (7 + 5) (emptyWorld, strayCalls))) = [(0, UserCallback 1, [Value 10])]
   \<and> snd (exec exampleUUID (7 + 5) (emptyWorld, strayCalls)) = []"
proof -
  have a: "0 < length (heap (fst (exec exampleUUID 7 (emptyWorld, strayCalls))))"
    by code_simp
  have b: "isStarted (heap (fst (exec exampleUUID 7 (emptyWorld, strayCalls))) ! 0)"
    by code_simp
  have c: "isFinished (heap (fst (exec exampleUUID 7 (emptyWorld, strayCalls))) ! 0)"
    by code_simp
  have d: "fired (fst (exec exampleUUID (7 + 5) (emptyWorld, strayCalls))) = [(0, UserCallback 1, [Value 10])]"
    by code_simp
  have e: "snd (exec exampleUUID (7 + 5) (emptyWorld, strayCalls)) = []"
    by code_simp
  from flags_one_way_handler_once [of exampleUUID 7 strayCalls 5] a b c
  have "isStarted (heap (fst (exec exampleUUID (7 + 5) (emptyWorld, strayCalls))) ! 0)"
       "isFinished (heap (fst (exec exampleUUID (7 + 5) (emptyWorld, strayCalls))) ! 0)"
       "length (filter (\<lambda>e. fst e = 0) (fired (fst (exec exampleUUID (7 + 5) (emptyWorld, strayCalls))))) \<le> 1"
    by blast+
  with a b c d e show ?thesis by blast
qed

section \<open>Steps and runs\<close>

lemma reaches_refl [simp]: "reaches g cfg cfg"
  unfolding reaches_def by (rule exI [of _ 0]) simp

lemma reaches_trans: "reaches g c1 c2 \<Longrightarrow> reaches g c2 c3 \<Longrightarrow> reaches g c1 c3"
  unfolding reaches_def by (metis exec_add)

lemma reaches_step:
  "step g c w = (w', calls) \<Longrightarrow> reaches g (w', calls @ cs) cfg \<Longrightarrow> reaches g (w, c # cs) cfg"
proof -
  assume s: "step g c w = (w', calls)" and r: "reaches g (w', calls @ cs) cfg"
  from r obtain n where "exec g n (w', calls @ cs) = cfg" by (auto simp: reaches_def)
  with s have "exec g (Suc n) (w, c # cs) = cfg" by simp
  then show ?thesis unfolding reaches_def by blast
qed

lemma reaches_run: "reaches g (w, calls) (w', []) \<Longrightarrow> \<exists>n. run g n w calls = Some w'"
proof -
  assume "reaches g (w, calls) (w', [])"
  then obtain n where "exec g n (w, calls) = (w', [])" by (auto simp: reaches_def)
  then have "run g n w calls = Some w'" by (simp add: run_def)
  then show ?thesis ..
qed

lemma exec_final_more: "exec g n cfg = (w', []) \<Longrightarrow> exec g (n + k) cfg = (w', [])"
  by (simp add: exec_add)

lemma run_deterministic:
  assumes "run g n w calls = Some w1" and "run g m w calls = Some w2"
  shows "w1 = w2"
proof -
  from assms have a: "exec g n (w, calls) = (w1, [])" and b: "exec g m (w, calls) = (w2, [])"
    by (auto simp: run_def split: prod.splits list.splits)
  from exec_final_more [OF a, of m] exec_final_more [OF b, of n] show ?thesis
    by (simp add: add.commute)
qed

lemma step_RunTask:
  "this < length (heap w) \<Longrightarrow>
   step g (RunTask this t b) w =
     (w\<lparr>invoked := invoked w @ [(this, t)]\<rparr>, [Invoke (asyncTaskFunction t) (TaskCallback this t b)])"
  by (simp add: alive_def runTask_def)

lemma step_Invoke_user:
  "step g (Invoke (UserFunction name now later) cb) w =
     (w\<lparr>pending := pending w @ map (\<lambda>r. (cb, r)) later\<rparr>, map (\<lambda>r. CallBack cb (Value r)) now)"
  by (simp add: invoke_def)

lemma step_CallBack_more:
  assumes "this < length (heap w)" and "asyncTaskResultList (heap w ! this) = a"
    and "a < length (arrays w)"
    and "Suc (length (arrays w ! a)) < length (asyncTaskList (heap w ! this))"
  shows "step g (CallBack (TaskCallback this t b) v) w =
     (w\<lparr>arrays := (arrays w)[a := arrays w ! a @ [v]]\<rparr>,
      if b then [ProcessNextQueueTask this] else [])"
  using assms by (simp add: alive_def callBack_def asyncTaskFinished_def Let_def)

lemma step_CallBack_last:
  assumes "this < length (heap w)" and "asyncTaskResultList (heap w ! this) = a"
    and "a < length (arrays w)"
    and "length (asyncTaskList (heap w ! this)) \<le> Suc (length (arrays w ! a))"
    and "\<not> isFinished (heap w ! this)"
  shows "step g (CallBack (TaskCallback this t b) v) w =
     (w\<lparr>arrays := (arrays w)[a := arrays w ! a @ [v]],
        heap := (heap w)[this := (heap w ! this)\<lparr>isFinished := True\<rparr>],
        fired := fired w @ (case finalCallback (heap w ! this) of None \<Rightarrow> []
                              | Some f \<Rightarrow> [(this, f, arrays w ! a @ [v])])\<rparr>,
      (case finalCallback (heap w ! this) of None \<Rightarrow> [] | Some f \<Rightarrow> [CallFinal f a])
      @ (if b then [ProcessNextQueueTask this] else []))"
  using assms
  by (simp add: alive_def callBack_def asyncTaskFinished_def finished_def Let_def split: option.splits)

lemma step_Deliver:
  "i < length (pending w) \<Longrightarrow>
   step g (Deliver i) w =
     (w\<lparr>pending := take i (pending w) @ drop (Suc i) (pending w)\<rparr>,
      [CallBack (fst (pending w ! i)) (Value (snd (pending w ! i)))])"
  by (simp add: deliver_def)

lemma step_ProcessNext_run:
  assumes "this < length (heap w)" and "asyncTaskResultList (heap w ! this) = a"
    and "length (arrays w ! a) < length (asyncTaskList (heap w ! this))"
  shows "step g (ProcessNextQueueTask this) w =
     (w\<lparr>invoked := invoked w @ [(this, asyncTaskList (heap w ! this) ! length (arrays w ! a))]\<rparr>,
      [Invoke (asyncTaskFunction (asyncTaskList (heap w ! this) ! length (arrays w ! a)))
         (TaskCallback this (asyncTaskList (heap w ! this) ! length (arrays w ! a)) True)])"
  using assms by (auto simp: alive_def processNextQueueTask_def runTask_def Let_def)

lemma step_ProcessNext_done:
  assumes "asyncTaskResultList (heap w ! this) = a"
    and "length (asyncTaskList (heap w ! this)) \<le> length (arrays w ! a)"
  shows "step g (ProcessNextQueueTask this) w = (w, [])"
  using assms by (auto simp: processNextQueueTask_def Let_def)

lemma step_CallFinal_user: "step g (CallFinal (UserCallback k) a) w = (w, [])"
  by (simp add: callFinal_def)

section \<open>Pool mode within the chunk size\<close>

lemma inRange_0 [simp]: "inRange is 0 \<longleftrightarrow> is = []"
  by (cases "is") simp_all

lemma length_arrived [simp]: "length (arrived is pd) = length is"
  by (induction "is" arbitrary: pd) simp_all

lemma length_waiting: "inRange is (length pd) \<Longrightarrow> length (waiting is pd) = length pd - length is"
proof (induction "is" arbitrary: pd)
  case Nil
  then show ?case by simp
next
  case (Cons i "is")
  then have "inRange is (length (take i pd @ drop (Suc i) pd))"
    by (simp add: min_def) 
  from Cons.IH [OF this] Cons.prems show ?case by (simp add: min_def)
qed

lemma inRange_length: "inRange is k \<Longrightarrow> length is \<le> k"
proof (induction "is" arbitrary: k)
  case Nil
  then show ?case by simp
next
  case (Cons i "is")
  then have "length is \<le> k - 1" and "0 < k" by auto
  then show ?case by simp
qed

lemma step_CallBack_last':
  assumes "this < length (heap w)" and "asyncTaskResultList (heap w ! this) = a"
    and "a < length (arrays w)"
    and "length (asyncTaskList (heap w ! this)) \<le> Suc (length (arrays w ! a))"
    and "\<not> isFinished (heap w ! this)"
    and "finalCallback (heap w ! this) = h"
  shows "step g (CallBack (TaskCallback this t b) v) w =
     (w\<lparr>arrays := (arrays w)[a := arrays w ! a @ [v]],
        heap := (heap w)[this := (heap w ! this)\<lparr>isFinished := True\<rparr>],
        fired := fired w @ firedEntry this h (arrays w ! a @ [v])\<rparr>,
      finalCalls h a @ (if b then [ProcessNextQueueTask this] else []))"
  using assms step_CallBack_last [OF assms(1-5), of g t b v]
  by (simp add: firedEntry_def finalCalls_def)

lemma removed_length: "i < length pd \<Longrightarrow> length (take i pd @ drop (Suc i) pd) = length pd - 1"
  by (simp add: min_def)

lemma removed_set: "set (take i pd @ drop (Suc i) pd) \<subseteq> set pd"
  by (auto dest: in_set_takeD in_set_dropD)

lemma pool_deliveries_all:
  assumes "p < length (heap w)" and "asyncTaskResultList (heap w ! p) = a" and "a < length (arrays w)"
    and "length (arrays w ! a) + length (pending w) = length (asyncTaskList (heap w ! p))"
    and "\<not> isFinished (heap w ! p)"
    and "finalCallback (heap w ! p) = h"
    and "\<forall>e\<in>set (pending w). \<exists>t. fst e = TaskCallback p t False"
    and "inRange is (length (pending w))"
    and "length is = length (pending w)"
    and "pending w \<noteq> []"
  shows "reaches g (w, map Deliver is @ rest)
     (w\<lparr>arrays := (arrays w)[a := arrays w ! a @ map (\<lambda>e. Value (snd e)) (arrived is (pending w))],
        pending := [],
        heap := (heap w)[p := (heap w ! p)\<lparr>isFinished := True\<rparr>],
        fired := fired w @ firedEntry p h
                   (arrays w ! a @ map (\<lambda>e. Value (snd e)) (arrived is (pending w)))\<rparr>,
      finalCalls h a @ rest)"
  using assms
proof (induction "is" arbitrary: w)
  case Nil
  then show ?case by simp
next
  case (Cons i "is")
  let ?pd = "pending w"
  let ?pd' = "take i ?pd @ drop (Suc i) ?pd"
  from Cons.prems have i: "i < length ?pd" by simp
  from Cons.prems i obtain t where cb: "fst (?pd ! i) = TaskCallback p t False"
    by (metis nth_mem)
  note len' = removed_length [OF i]
  let ?v = "Value (snd (?pd ! i))"
  let ?w1 = "w\<lparr>pending := ?pd'\<rparr>"
  have s1: "step g (Deliver i) w = (?w1, [CallBack (TaskCallback p t False) ?v])"
    using step_Deliver [of i w g] i cb by simp
  show ?case
  proof (cases "is")
    case (Cons j js)
    with Cons.prems(9) have big: "2 \<le> length ?pd" by simp
    with Cons.prems(4) have more: "Suc (length (arrays w ! a)) < length (asyncTaskList (heap w ! p))"
      by simp
    let ?w2 = "?w1\<lparr>arrays := (arrays w)[a := arrays w ! a @ [?v]]\<rparr>"
    have s2: "step g (CallBack (TaskCallback p t False) ?v) ?w1 = (?w2, [])"
      using step_CallBack_more [where this = p and w = ?w1 and a = a and t = t and g = g and b = False and v = ?v]
        Cons.prems more by simp
    have ne: "?pd' \<noteq> []" using big len' by (cases ?pd') auto
    have mem: "\<forall>e\<in>set (pending ?w2). \<exists>t. fst e = TaskCallback p t False"
      using Cons.prems(7) removed_set [of i ?pd] by auto
    have rng: "inRange is (length (pending ?w2))" using Cons.prems(8) len' by simp
    have cnt: "length (arrays ?w2 ! a) + length (pending ?w2) = length (asyncTaskList (heap ?w2 ! p))"
      using Cons.prems(3,4) len' i by simp
    have all: "length is = length (pending ?w2)" using Cons.prems(9) len' by simp
    have ih: "reaches g (?w2, map Deliver is @ rest)
       (?w2\<lparr>arrays := (arrays ?w2)[a := arrays ?w2 ! a @ map (\<lambda>e. Value (snd e)) (arrived is (pending ?w2))],
        pending := [],
        heap := (heap ?w2)[p := (heap ?w2 ! p)\<lparr>isFinished := True\<rparr>],
        fired := fired ?w2 @ firedEntry p h
                   (arrays ?w2 ! a @ map (\<lambda>e. Value (snd e)) (arrived is (pending ?w2)))\<rparr>,
       finalCalls h a @ rest)" (is "reaches _ _ (?X, _)")
      using Cons.prems(1,2,3,5,6) ne mem rng cnt all
      by (intro Cons.IH) simp_all
    have "reaches g (w, Deliver i # map Deliver is @ rest) (?w2, map Deliver is @ rest)"
      by (rule reaches_step [OF s1], simp, rule reaches_step [OF s2], simp)
    note r = reaches_trans [OF this ih]
    let "reaches _ _ (?Y, _)" = ?thesis
    have eq: "?X = ?Y"
      using Cons.prems(3) by (intro world.equality) simp_all
    show ?thesis using r unfolding eq by simp
  next
    case Nil
    with Cons.prems(9) have one: "length ?pd = 1" by simp
    with Cons.prems(4) have last: "length (asyncTaskList (heap w ! p)) \<le> Suc (length (arrays w ! a))"
      by simp
    let ?w2 = "?w1\<lparr>arrays := (arrays w)[a := arrays w ! a @ [?v]],
        heap := (heap w)[p := (heap w ! p)\<lparr>isFinished := True\<rparr>],
        fired := fired w @ firedEntry p h (arrays w ! a @ [?v])\<rparr>"
    have s2: "step g (CallBack (TaskCallback p t False) ?v) ?w1 = (?w2, finalCalls h a)"
      using step_CallBack_last' [where this = p and w = ?w1 and a = a and t = t and g = g and b = False and v = ?v and h = h]
        Cons.prems last by simp
    have "length ?pd' = 0" using len' one by (simp only: diff_self_eq_0)
    then have pd'0: "?pd' = []" by (simp only: length_0_conv)
    have r: "reaches g (w, Deliver i # map Deliver is @ rest) (?w2, finalCalls h a @ rest)"
      using Nil by (intro reaches_step [OF s1]) (simp, intro reaches_step [OF s2], simp)
    let "reaches _ _ (?Y, _)" = ?thesis
    have eq: "?w2 = ?Y"
      using Nil pd'0 by (intro world.equality) simp_all
    show ?thesis using r unfolding eq by simp
  qed
qed

lemma pool_deliveries_some:
  assumes "p < length (heap w)" and "asyncTaskResultList (heap w ! p) = a" and "a < length (arrays w)"
    and "length (arrays w ! a) + length (pending w) = length (asyncTaskList (heap w ! p))"
    and "\<forall>e\<in>set (pending w). \<exists>t. fst e = TaskCallback p t False"
    and "inRange is (length (pending w))"
    and "length is < length (pending w)"
  shows "reaches g (w, map Deliver is @ rest)
     (w\<lparr>arrays := (arrays w)[a := arrays w ! a @ map (\<lambda>e. Value (snd e)) (arrived is (pending w))],
        pending := waiting is (pending w)\<rparr>,
      rest)"
  using assms
proof (induction "is" arbitrary: w)
  case Nil
  then show ?case by simp
next
  case (Cons i "is")
  let ?pd = "pending w"
  let ?pd' = "take i ?pd @ drop (Suc i) ?pd"
  from Cons.prems have i: "i < length ?pd" by simp
  from Cons.prems i obtain t where cb: "fst (?pd ! i) = TaskCallback p t False"
    by (metis nth_mem)
  note len' = removed_length [OF i]
  let ?v = "Value (snd (?pd ! i))"
  let ?w1 = "w\<lparr>pending := ?pd'\<rparr>"
  have s1: "step g (Deliver i) w = (?w1, [CallBack (TaskCallback p t False) ?v])"
    using step_Deliver [of i w g] i cb by simp
  from Cons.prems(7) have big: "2 \<le> length ?pd" by simp
  with Cons.prems(4) have more: "Suc (length (arrays w ! a)) < length (asyncTaskList (heap w ! p))"
    by simp
  let ?w2 = "?w1\<lparr>arrays := (arrays w)[a := arrays w ! a @ [?v]]\<rparr>"
  have s2: "step g (CallBack (TaskCallback p t False) ?v) ?w1 = (?w2, [])"
    using step_CallBack_more [where this = p and w = ?w1 and a = a and t = t and g = g and b = False and v = ?v]
      Cons.prems more by simp
  have mem: "\<forall>e\<in>set (pending ?w2). \<exists>t. fst e = TaskCallback p t False"
    using Cons.prems(5) removed_set [of i ?pd] by auto
  have rng: "inRange is (length (pending ?w2))" using Cons.prems(6) len' by simp
  have cnt: "length (arrays ?w2 ! a) + length (pending ?w2) = length (asyncTaskList (heap ?w2 ! p))"
    using Cons.prems(3,4) len' i by simp
  have some: "length is < length (pending ?w2)" using Cons.prems(7) len' by simp
  have ih: "reaches g (?w2, map Deliver is @ rest)
     (?w2\<lparr>arrays := (arrays ?w2)[a := arrays ?w2 ! a @ map (\<lambda>e. Value (snd e)) (arrived is (pending ?w2))],
      pending := waiting is (pending ?w2)\<rparr>, rest)" (is "reaches _ _ (?X, _)")
    using Cons.prems(1,2,3) mem rng cnt some
    by (intro Cons.IH) simp_all
  have "reaches g (w, Deliver i # map Deliver is @ rest) (?w2, map Deliver is @ rest)"
    by (rule reaches_step [OF s1], simp, rule reaches_step [OF s2], simp)
  note r = reaches_trans [OF this ih]
  let "reaches _ _ (?Y, _)" = ?case
  have eq: "?X = ?Y"
    using Cons.prems(3) by (intro world.equality) simp_all
  show ?case using r unfolding eq by simp
qed

lemma callsBackOnce_cases:
  assumes "callsBackOnce t"
  obtains (now) name r where "asyncTaskFunction t = UserFunction name [r] []"
        | (later) name r where "asyncTaskFunction t = UserFunction name [] [r]"
proof (cases "asyncTaskFunction t")
  case (UserFunction name now later)
  with assms have l: "length now + length later = 1" by (simp add: callsBackOnce_def)
  show ?thesis
  proof (cases now)
    case Nil
    with l obtain r where "later = [r]" by (cases later) auto
    with Nil UserFunction that(2) show ?thesis by simp
  next
    case (Cons r rs)
    with l have "rs = []" "later = []" by auto
    with Cons UserFunction that(1) show ?thesis by simp
  qed
next
  case (ChunkFunction d c)
  with assms show ?thesis by (simp add: callsBackOnce_def)
qed

lemma pendingOf_Nil [simp]: "pendingOf p [] = []"
  by (simp add: pendingOf_def)

lemma pendingOf_Cons:
  "pendingOf p (t # ts) = map (\<lambda>r. (TaskCallback p t False, r)) (laterValues t) @ pendingOf p ts"
  by (simp add: pendingOf_def)

lemma pendingOf_callbacks: "e \<in> set (pendingOf p ts) \<Longrightarrow> \<exists>t. fst e = TaskCallback p t False"
  by (auto simp: pendingOf_def)

lemma length_pendingOf: "\<forall>t\<in>set ts. callsBackOnce t \<Longrightarrow> length (pendingOf p ts) \<le> length ts"
proof (induction ts)
  case Nil
  then show ?case by simp
next
  case (Cons t ts)
  then have "callsBackOnce t" by simp
  then have "length (laterValues t) \<le> 1"
    by (cases rule: callsBackOnce_cases) (simp_all add: laterValues_def)
  with Cons show ?case by (simp add: pendingOf_Cons)
qed

lemma pool_all:
  assumes "p < length (heap w)" and "asyncTaskResultList (heap w ! p) = a" and "a < length (arrays w)"
    and "\<forall>t\<in>set us. callsBackOnce t"
    and "length (arrays w ! a) + length (pending w) + length us = length (asyncTaskList (heap w ! p))"
    and "length (arrays w ! a) < length (asyncTaskList (heap w ! p))"
    and "\<not> isFinished (heap w ! p)"
    and "finalCallback (heap w ! p) = h"
    and "\<forall>e\<in>set (pending w). \<exists>t. fst e = TaskCallback p t False"
    and "inRange is (length (pending w) + length (pendingOf p us))"
    and "length is = length (pending w) + length (pendingOf p us)"
  shows "reaches g (w, map (\<lambda>t. RunTask p t False) us @ map Deliver is @ rest)
     (w\<lparr>arrays := (arrays w)[a := arrays w ! a @ map Value (concat (map nowValues us))
                 @ map (\<lambda>e. Value (snd e)) (arrived is (pending w @ pendingOf p us))],
        pending := [],
        invoked := invoked w @ map (Pair p) us,
        heap := (heap w)[p := (heap w ! p)\<lparr>isFinished := True\<rparr>],
        fired := fired w @ firedEntry p h
                   (arrays w ! a @ map Value (concat (map nowValues us))
                    @ map (\<lambda>e. Value (snd e)) (arrived is (pending w @ pendingOf p us)))\<rparr>,
      finalCalls h a @ rest)"
  using assms
proof (induction us arbitrary: w "is")
  case Nil
  then have ne: "pending w \<noteq> []" by auto
  let "reaches _ _ (?Y, _)" = ?case
  from pool_deliveries_all [OF Nil.prems(1,2,3) _ Nil.prems(7,8,9) _ _ ne, of "is" g rest] Nil.prems
  have r: "reaches g (w, map Deliver is @ rest)
     (w\<lparr>arrays := (arrays w)[a := arrays w ! a @ map (\<lambda>e. Value (snd e)) (arrived is (pending w))],
        pending := [],
        heap := (heap w)[p := (heap w ! p)\<lparr>isFinished := True\<rparr>],
        fired := fired w @ firedEntry p h
                   (arrays w ! a @ map (\<lambda>e. Value (snd e)) (arrived is (pending w)))\<rparr>,
      finalCalls h a @ rest)" (is "reaches _ _ (?X, _)")
    by simp
  have eq: "?X = ?Y" by (intro world.equality) simp_all
  show ?case using r unfolding eq by simp
next
  case (Cons t us)
  let ?cb = "TaskCallback p t False"
  let ?w1 = "w\<lparr>invoked := invoked w @ [(p, t)]\<rparr>"
  have s1: "step g (RunTask p t False) w = (?w1, [Invoke (asyncTaskFunction t) ?cb])"
    using Cons.prems(1) by (rule step_RunTask)
  let "reaches _ _ (?Y, _)" = ?case
  from Cons.prems(4) have "callsBackOnce t" by simp
  then show ?case
  proof (cases rule: callsBackOnce_cases)
    case (later name r)
    then have nv: "nowValues t = []" and lv: "laterValues t = [r]"
      by (simp_all add: nowValues_def laterValues_def)
    let ?w2 = "?w1\<lparr>pending := pending w @ [(?cb, r)]\<rparr>"
    have s2: "step g (Invoke (asyncTaskFunction t) ?cb) ?w1 = (?w2, [])"
      by (simp add: later invoke_def)
    have ih: "reaches g (?w2, map (\<lambda>t. RunTask p t False) us @ map Deliver is @ rest)
      (?w2\<lparr>arrays := (arrays ?w2)[a := arrays ?w2 ! a @ map Value (concat (map nowValues us))
                 @ map (\<lambda>e. Value (snd e)) (arrived is (pending ?w2 @ pendingOf p us))],
        pending := [],
        invoked := invoked ?w2 @ map (Pair p) us,
        heap := (heap ?w2)[p := (heap ?w2 ! p)\<lparr>isFinished := True\<rparr>],
        fired := fired ?w2 @ firedEntry p h
                   (arrays ?w2 ! a @ map Value (concat (map nowValues us))
                    @ map (\<lambda>e. Value (snd e)) (arrived is (pending ?w2 @ pendingOf p us)))\<rparr>,
       finalCalls h a @ rest)" (is "reaches _ _ (?X, _)")
      using Cons.prems lv by (intro Cons.IH) (simp_all add: pendingOf_Cons)
    have r0: "reaches g (w, RunTask p t False # map (\<lambda>t. RunTask p t False) us @ map Deliver is @ rest)
                (?w2, map (\<lambda>t. RunTask p t False) us @ map Deliver is @ rest)"
      by (rule reaches_step [OF s1], simp, rule reaches_step [OF s2], simp)
    note r = reaches_trans [OF r0 ih]
    have eq: "?X = ?Y" by (intro world.equality) (simp_all add: nv lv pendingOf_Cons)
    show ?thesis using r unfolding eq by simp
  next
    case (now name r)
    then have nv: "nowValues t = [r]" and lv: "laterValues t = []"
      by (simp_all add: nowValues_def laterValues_def)
    have s2: "step g (Invoke (asyncTaskFunction t) ?cb) ?w1 = (?w1, [CallBack ?cb (Value r)])"
      by (simp add: now invoke_def)
    show ?thesis
    proof (cases "Suc (length (arrays w ! a)) < length (asyncTaskList (heap w ! p))")
      case True
      let ?w3 = "?w1\<lparr>arrays := (arrays w)[a := arrays w ! a @ [Value r]]\<rparr>"
      have s3: "step g (CallBack ?cb (Value r)) ?w1 = (?w3, [])"
        using step_CallBack_more [where this = p and w = ?w1 and a = a and t = t and g = g
                                    and b = False and v = "Value r"]
          Cons.prems True by simp
      have ih: "reaches g (?w3, map (\<lambda>t. RunTask p t False) us @ map Deliver is @ rest)
        (?w3\<lparr>arrays := (arrays ?w3)[a := arrays ?w3 ! a @ map Value (concat (map nowValues us))
                 @ map (\<lambda>e. Value (snd e)) (arrived is (pending ?w3 @ pendingOf p us))],
          pending := [],
          invoked := invoked ?w3 @ map (Pair p) us,
          heap := (heap ?w3)[p := (heap ?w3 ! p)\<lparr>isFinished := True\<rparr>],
          fired := fired ?w3 @ firedEntry p h
                   (arrays ?w3 ! a @ map Value (concat (map nowValues us))
                    @ map (\<lambda>e. Value (snd e)) (arrived is (pending ?w3 @ pendingOf p us)))\<rparr>,
         finalCalls h a @ rest)" (is "reaches _ _ (?X, _)")
        using Cons.prems lv True by (intro Cons.IH) (simp_all add: pendingOf_Cons)
      have r0: "reaches g (w, RunTask p t False # map (\<lambda>t. RunTask p t False) us @ map Deliver is @ rest)
                (?w3, map (\<lambda>t. RunTask p t False) us @ map Deliver is @ rest)"
        by (rule reaches_step [OF s1], simp, rule reaches_step [OF s2], simp,
            rule reaches_step [OF s3], simp)
      note r = reaches_trans [OF r0 ih]
      have eq: "?X = ?Y"
        using Cons.prems(3) by (intro world.equality) (simp_all add: nv lv pendingOf_Cons)
      show ?thesis using r unfolding eq by simp
    next
      case False
      with Cons.prems(5) have "length (pending w) + length us = 0"
        by (simp only: list.size)
      then have e: "pending w = []" "us = []" by simp_all
      with Cons.prems(11) lv have isn: "is = []" by (simp add: pendingOf_Cons)
      from False have last: "length (asyncTaskList (heap w ! p)) \<le> Suc (length (arrays w ! a))"
        by simp
      let ?w3 = "?w1\<lparr>arrays := (arrays w)[a := arrays w ! a @ [Value r]],
          heap := (heap w)[p := (heap w ! p)\<lparr>isFinished := True\<rparr>],
          fired := fired w @ firedEntry p h (arrays w ! a @ [Value r])\<rparr>"
      have s3: "step g (CallBack ?cb (Value r)) ?w1 = (?w3, finalCalls h a)"
        using step_CallBack_last' [where this = p and w = ?w1 and a = a and t = t and g = g
                                     and b = False and v = "Value r" and h = h]
          Cons.prems last by simp
      have r: "reaches g (w, RunTask p t False # map (\<lambda>t. RunTask p t False) us @ map Deliver is @ rest)
                (?w3, finalCalls h a @ rest)"
        using e isn
        by (intro reaches_step [OF s1]) (simp, intro reaches_step [OF s2], simp,
            intro reaches_step [OF s3], simp)
      have eq: "?w3 = ?Y"
        using e isn by (intro world.equality) (simp_all add: nv lv pendingOf_Cons)
      show ?thesis using r unfolding eq by simp
    qed
  qed
qed

lemma pool_some:
  assumes "p < length (heap w)" and "asyncTaskResultList (heap w ! p) = a" and "a < length (arrays w)"
    and "\<forall>t\<in>set us. callsBackOnce t"
    and "length (arrays w ! a) + length (pending w) + length us = length (asyncTaskList (heap w ! p))"
    and "\<forall>e\<in>set (pending w). \<exists>t. fst e = TaskCallback p t False"
    and "inRange is (length (pending w) + length (pendingOf p us))"
    and "length is < length (pending w) + length (pendingOf p us)"
  shows "reaches g (w, map (\<lambda>t. RunTask p t False) us @ map Deliver is @ rest)
     (w\<lparr>arrays := (arrays w)[a := arrays w ! a @ map Value (concat (map nowValues us))
                 @ map (\<lambda>e. Value (snd e)) (arrived is (pending w @ pendingOf p us))],
        pending := waiting is (pending w @ pendingOf p us),
        invoked := invoked w @ map (Pair p) us\<rparr>,
      rest)"
  using assms
proof (induction us arbitrary: w)
  case Nil
  let "reaches _ _ (?Y, _)" = ?case
  from pool_deliveries_some [OF Nil.prems(1,2,3) _ Nil.prems(6), of "is" g rest] Nil.prems
  have r: "reaches g (w, map Deliver is @ rest)
     (w\<lparr>arrays := (arrays w)[a := arrays w ! a @ map (\<lambda>e. Value (snd e)) (arrived is (pending w))],
        pending := waiting is (pending w)\<rparr>, rest)" (is "reaches _ _ (?X, _)")
    by simp
  have eq: "?X = ?Y" by (intro world.equality) simp_all
  show ?case using r unfolding eq by simp
next
  case (Cons t us)
  let ?cb = "TaskCallback p t False"
  let ?w1 = "w\<lparr>invoked := invoked w @ [(p, t)]\<rparr>"
  have s1: "step g (RunTask p t False) w = (?w1, [Invoke (asyncTaskFunction t) ?cb])"
    using Cons.prems(1) by (rule step_RunTask)
  let "reaches _ _ (?Y, _)" = ?case
  from Cons.prems(4) have once: "callsBackOnce t" "\<forall>t\<in>set us. callsBackOnce t" by simp_all
  from once(1) show ?case
  proof (cases rule: callsBackOnce_cases)
    case (later name r)
    then have nv: "nowValues t = []" and lv: "laterValues t = [r]"
      by (simp_all add: nowValues_def laterValues_def)
    let ?w2 = "?w1\<lparr>pending := pending w @ [(?cb, r)]\<rparr>"
    have s2: "step g (Invoke (asyncTaskFunction t) ?cb) ?w1 = (?w2, [])"
      by (simp add: later invoke_def)
    have ih: "reaches g (?w2, map (\<lambda>t. RunTask p t False) us @ map Deliver is @ rest)
      (?w2\<lparr>arrays := (arrays ?w2)[a := arrays ?w2 ! a @ map Value (concat (map nowValues us))
                 @ map (\<lambda>e. Value (snd e)) (arrived is (pending ?w2 @ pendingOf p us))],
        pending := waiting is (pending ?w2 @ pendingOf p us),
        invoked := invoked ?w2 @ map (Pair p) us\<rparr>,
       rest)" (is "reaches _ _ (?X, _)")
      using Cons.prems lv by (intro Cons.IH) (simp_all add: pendingOf_Cons)
    have r0: "reaches g (w, RunTask p t False # map (\<lambda>t. RunTask p t False) us @ map Deliver is @ rest)
                (?w2, map (\<lambda>t. RunTask p t False) us @ map Deliver is @ rest)"
      by (rule reaches_step [OF s1], simp, rule reaches_step [OF s2], simp)
    note r = reaches_trans [OF r0 ih]
    have eq: "?X = ?Y" by (intro world.equality) (simp_all add: nv lv pendingOf_Cons)
    show ?thesis using r unfolding eq by simp
  next
    case (now name r)
    then have nv: "nowValues t = [r]" and lv: "laterValues t = []"
      by (simp_all add: nowValues_def laterValues_def)
    have s2: "step g (Invoke (asyncTaskFunction t) ?cb) ?w1 = (?w1, [CallBack ?cb (Value r)])"
      by (simp add: now invoke_def)
    from length_pendingOf [OF once(2), of p] Cons.prems(8) lv
    have "0 < length (pending w) + length us" by (simp only: pendingOf_Cons list.map append_Nil)
    with Cons.prems(5)
    have more: "Suc (length (arrays w ! a)) < length (asyncTaskList (heap w ! p))"
      unfolding length_Cons by arith
    let ?w3 = "?w1\<lparr>arrays := (arrays w)[a := arrays w ! a @ [Value r]]\<rparr>"
    have s3: "step g (CallBack ?cb (Value r)) ?w1 = (?w3, [])"
      using step_CallBack_more [where this = p and w = ?w1 and a = a and t = t and g = g
                                  and b = False and v = "Value r"]
        Cons.prems more by simp
    have ih: "reaches g (?w3, map (\<lambda>t. RunTask p t False) us @ map Deliver is @ rest)
      (?w3\<lparr>arrays := (arrays ?w3)[a := arrays ?w3 ! a @ map Value (concat (map nowValues us))
               @ map (\<lambda>e. Value (snd e)) (arrived is (pending ?w3 @ pendingOf p us))],
        pending := waiting is (pending ?w3 @ pendingOf p us),
        invoked := invoked ?w3 @ map (Pair p) us\<rparr>,
       rest)" (is "reaches _ _ (?X, _)")
      using Cons.prems lv by (intro Cons.IH) (simp_all add: pendingOf_Cons)
    have r0: "reaches g (w, RunTask p t False # map (\<lambda>t. RunTask p t False) us @ map Deliver is @ rest)
              (?w3, map (\<lambda>t. RunTask p t False) us @ map Deliver is @ rest)"
      by (rule reaches_step [OF s1], simp, rule reaches_step [OF s2], simp,
          rule reaches_step [OF s3], simp)
    note r = reaches_trans [OF r0 ih]
    have eq: "?X = ?Y"
      using Cons.prems(3) by (intro world.equality) (simp_all add: nv lv pendingOf_Cons)
    show ?thesis using r unfolding eq by simp
  qed
qed

lemma reaches_finalCalls_caller:
  "callerHandler h \<Longrightarrow> reaches g (w, finalCalls h a @ rest) (w, rest)"
proof (cases h)
  case None
  then show ?thesis by (simp add: finalCalls_def)
next
  case (Some f)
  assume "callerHandler h"
  with Some obtain k where "f = UserCallback k"
    by (cases f) (simp_all add: callerHandler_def)
  with Some show ?thesis
    by (auto simp: finalCalls_def intro: reaches_step [OF step_CallFinal_user])
qed

lemma step_PoolCall_small:
  assumes "this < length (heap w)" and "\<not> isStarted (heap w ! this)"
    and "asyncTaskList (heap w ! this) \<noteq> []"
    and "length (asyncTaskList (heap w ! this)) \<le> asyncPoolChunkSize"
  shows "step g (PoolCall this f) w =
     (w\<lparr>heap := (heap w)[this := (heap w ! this)
          \<lparr>finalCallback := (case f of Some h \<Rightarrow> Some h | None \<Rightarrow> finalCallback (heap w ! this)),
           taskMode := Pool, isStarted := True\<rparr>]\<rparr>,
      map (\<lambda>t. RunTask this t False) (asyncTaskList (heap w ! this)))"
  using assms by (simp add: alive_def pool_def start_def Let_def)

lemma step_start_empty:
  assumes "this < length (heap w)" and "\<not> isStarted (heap w ! this)"
    and "asyncTaskList (heap w ! this) = []" and "\<not> isFinished (heap w ! this)"
  shows "step g (Start this f m) w =
     (w\<lparr>heap := (heap w)[this := (heap w ! this)
          \<lparr>finalCallback := (case f of Some h \<Rightarrow> Some h | None \<Rightarrow> finalCallback (heap w ! this)),
           taskMode := (case m of None \<Rightarrow> Queue | Some x \<Rightarrow> x), isStarted := True, isFinished := True\<rparr>],
        fired := fired w @ firedEntry this (case f of Some h \<Rightarrow> Some h | None \<Rightarrow> finalCallback (heap w ! this))
                   (arrays w ! asyncTaskResultList (heap w ! this))\<rparr>,
      finalCalls (case f of Some h \<Rightarrow> Some h | None \<Rightarrow> finalCallback (heap w ! this))
        (asyncTaskResultList (heap w ! this)))"
  using assms
  by (simp add: alive_def start_def finished_def Let_def firedEntry_def finalCalls_def
           split: option.splits)

lemma step_PoolCall_Start: "step g (PoolCall this f) w = step g (Start this f (Some Pool)) w"
  by (simp add: pool_def start_def Let_def case_prod_unfold)

lemma step_QueueCall_Start: "step g (QueueCall this f) w = step g (Start this f (Some Queue)) w"
  by (simp add: queue_def start_def Let_def case_prod_unfold)

lemma once_lengths:
  "\<forall>t\<in>set ts. callsBackOnce t \<Longrightarrow>
     length (concat (map nowValues ts)) + length (pendingOf p ts) = length ts"
proof (induction ts)
  case Nil
  then show ?case by simp
next
  case (Cons t ts)
  then have "callsBackOnce t" by simp
  then have "length (nowValues t) + length (laterValues t) = 1"
    by (cases rule: callsBackOnce_cases) (simp_all add: nowValues_def laterValues_def)
  with Cons show ?case by (simp add: pendingOf_Cons)
qed

lemma pool_fresh_all:
  assumes "p < length (heap w)" and "asyncTaskResultList (heap w ! p) = a" and "a < length (arrays w)"
    and "asyncTaskList (heap w ! p) = ts" and "ts \<noteq> []" and "length ts \<le> asyncPoolChunkSize"
    and "\<forall>t\<in>set ts. callsBackOnce t"
    and "\<not> isStarted (heap w ! p)" and "\<not> isFinished (heap w ! p)"
    and "arrays w ! a = []" and "pending w = []"
    and "inRange is (length (pendingOf p ts))" and "length is = length (pendingOf p ts)"
    and "h = (case f of Some x \<Rightarrow> Some x | None \<Rightarrow> finalCallback (heap w ! p))"
  shows "reaches g (w, PoolCall p f # map Deliver is @ rest)
     (w\<lparr>arrays := (arrays w)[a := map Value (concat (map nowValues ts))
                 @ map (\<lambda>e. Value (snd e)) (arrived is (pendingOf p ts))],
        pending := [],
        invoked := invoked w @ map (Pair p) ts,
        heap := (heap w)[p := (heap w ! p)
                  \<lparr>finalCallback := h, taskMode := Pool, isStarted := True, isFinished := True\<rparr>],
        fired := fired w @ firedEntry p h
                   (map Value (concat (map nowValues ts))
                    @ map (\<lambda>e. Value (snd e)) (arrived is (pendingOf p ts)))\<rparr>,
      finalCalls h a @ rest)"
proof -
  let ?w1 = "w\<lparr>heap := (heap w)[p := (heap w ! p)
          \<lparr>finalCallback := (case f of Some h \<Rightarrow> Some h | None \<Rightarrow> finalCallback (heap w ! p)),
           taskMode := Pool, isStarted := True\<rparr>]\<rparr>"
  have s1: "step g (PoolCall p f) w = (?w1, map (\<lambda>t. RunTask p t False) ts)"
    using step_PoolCall_small [of p w g f] assms by simp
  have r1: "reaches g (?w1, map (\<lambda>t. RunTask p t False) ts @ map Deliver is @ rest)
     (?w1\<lparr>arrays := (arrays ?w1)[a := arrays ?w1 ! a @ map Value (concat (map nowValues ts))
                 @ map (\<lambda>e. Value (snd e)) (arrived is (pending ?w1 @ pendingOf p ts))],
        pending := [],
        invoked := invoked ?w1 @ map (Pair p) ts,
        heap := (heap ?w1)[p := (heap ?w1 ! p)\<lparr>isFinished := True\<rparr>],
        fired := fired ?w1 @ firedEntry p h
                   (arrays ?w1 ! a @ map Value (concat (map nowValues ts))
                    @ map (\<lambda>e. Value (snd e)) (arrived is (pending ?w1 @ pendingOf p ts)))\<rparr>,
      finalCalls h a @ rest)" (is "reaches _ _ (?X, _)")
    using assms by (intro pool_all) simp_all
  let "reaches _ _ (?Y, _)" = ?thesis
  have eq: "?X = ?Y" using assms by (intro world.equality) simp_all
  have "reaches g (w, PoolCall p f # map Deliver is @ rest) (?X, finalCalls h a @ rest)"
    by (rule reaches_step [OF s1]) (use r1 in simp)
  then show ?thesis unfolding eq .
qed

lemma pool_fresh_some:
  assumes "p < length (heap w)" and "asyncTaskResultList (heap w ! p) = a" and "a < length (arrays w)"
    and "asyncTaskList (heap w ! p) = ts" and "ts \<noteq> []" and "length ts \<le> asyncPoolChunkSize"
    and "\<forall>t\<in>set ts. callsBackOnce t"
    and "\<not> isStarted (heap w ! p)"
    and "arrays w ! a = []" and "pending w = []"
    and "inRange is (length (pendingOf p ts))" and "length is < length (pendingOf p ts)"
    and "h = (case f of Some x \<Rightarrow> Some x | None \<Rightarrow> finalCallback (heap w ! p))"
  shows "reaches g (w, PoolCall p f # map Deliver is @ rest)
     (w\<lparr>arrays := (arrays w)[a := map Value (concat (map nowValues ts))
                 @ map (\<lambda>e. Value (snd e)) (arrived is (pendingOf p ts))],
        pending := waiting is (pendingOf p ts),
        invoked := invoked w @ map (Pair p) ts,
        heap := (heap w)[p := (heap w ! p)
                  \<lparr>finalCallback := h, taskMode := Pool, isStarted := True\<rparr>]\<rparr>,
      rest)"
proof -
  let ?w1 = "w\<lparr>heap := (heap w)[p := (heap w ! p)
          \<lparr>finalCallback := (case f of Some h \<Rightarrow> Some h | None \<Rightarrow> finalCallback (heap w ! p)),
           taskMode := Pool, isStarted := True\<rparr>]\<rparr>"
  have s1: "step g (PoolCall p f) w = (?w1, map (\<lambda>t. RunTask p t False) ts)"
    using step_PoolCall_small [of p w g f] assms by simp
  have r1: "reaches g (?w1, map (\<lambda>t. RunTask p t False) ts @ map Deliver is @ rest)
     (?w1\<lparr>arrays := (arrays ?w1)[a := arrays ?w1 ! a @ map Value (concat (map nowValues ts))
                 @ map (\<lambda>e. Value (snd e)) (arrived is (pending ?w1 @ pendingOf p ts))],
        pending := waiting is (pending ?w1 @ pendingOf p ts),
        invoked := invoked ?w1 @ map (Pair p) ts\<rparr>,
      rest)" (is "reaches _ _ (?X, _)")
    using assms by (intro pool_some) simp_all
  let "reaches _ _ (?Y, _)" = ?thesis
  have eq: "?X = ?Y" using assms by (intro world.equality) simp_all
  have "reaches g (w, PoolCall p f # map Deliver is @ rest) (?X, rest)"
    by (rule reaches_step [OF s1]) (use r1 in simp)
  then show ?thesis unfolding eq .
qed

lemma construct_fields:
  assumes "construct g options w = (this, w0)"
  shows "this = length (heap w)" and "length (heap w0) = Suc (length (heap w))"
    and "length (arrays w0) = Suc (length (arrays w))"
    and "asyncTaskResultList (heap w0 ! this) = length (arrays w)"
    and "asyncTaskList (heap w0 ! this) = constructorTasks g (Suc (uuidCount w)) (optionTasks options)"
    and "\<not> isStarted (heap w0 ! this)" and "\<not> isFinished (heap w0 ! this)"
    and "finalCallback (heap w0 ! this) = finalCallback_opt options"
    and "arrays w0 ! length (arrays w) = []"
    and "pending w0 = pending w" and "invoked w0 = invoked w" and "fired w0 = fired w"
    and "\<And>i. i < length (heap w) \<Longrightarrow> heap w0 ! i = heap w ! i"
    and "\<And>i. i < length (arrays w) \<Longrightarrow> arrays w0 ! i = arrays w ! i"
    and "isDebug (heap w0 ! this) = (case debug options of Some d \<Rightarrow> d | None \<Rightarrow> False)"
    and "taskMode (heap w0 ! this) = (case taskMode_opt options of Some m \<Rightarrow> m | None \<Rightarrow> Queue)"
  using assms by (auto simp: construct_eq nth_append)

text \<open>
  Claim C2. A coordinator is constructed with at most 30 tasks, each calling back exactly
  once (now or later), and \<open>pool\<close> is called on it; then the scheduler delivers pending
  callbacks in any order. The run ends, and then: every task has been run exactly once,
  in \<open>pool\<close> itself (\<open>invoked\<close> does not depend on the deliveries); the result list
  holds the values passed so far, in the order of arrival; the coordinator is finished
  if and only if every pending callback has been delivered, and then the result list is
  as long as the task list, nothing is pending and the handler has been invoked once.
\<close>

theorem pool_within_chunk_size:
  assumes "ts = constructorTasks g (Suc (uuidCount w)) (optionTasks options)"
    and "this = length (heap w)"
    and "h = (case f of Some x \<Rightarrow> Some x | None \<Rightarrow> finalCallback_opt options)"
    and "length ts \<le> 30"
    and "\<forall>t\<in>set ts. callsBackOnce t"
    and "callerHandler h"
    and "pending w = []"
    and "inRange is (length (pendingOf this ts))"
  shows "\<exists>n w'. run g n w (New options # PoolCall this f # map Deliver is) = Some w' \<and>
    invoked w' = invoked w @ map (Pair this) ts \<and>
    results w' this = map Value (concat (map nowValues ts))
                      @ map (\<lambda>e. Value (snd e)) (arrived is (pendingOf this ts)) \<and>
    pending w' = waiting is (pendingOf this ts) \<and>
    (isFinished (heap w' ! this) \<longleftrightarrow> length is = length (pendingOf this ts)) \<and>
    (isFinished (heap w' ! this) \<longrightarrow> length (results w' this) = length ts \<and> pending w' = []) \<and>
    fired w' = fired w @ (if length is = length (pendingOf this ts)
                          then firedEntry this h (results w' this) else [])"
proof -
  obtain w0 where c: "construct g options w = (this, w0)"
    using assms(2) by (simp add: construct_eq)
  note cf = construct_fields [OF c]
  let ?a = "length (arrays w)"
  have s0: "step g (New options) w = (w0, [])" using c by simp
  have alive: "this < length (heap w0)" using cf(1,2) by simp
  have addr: "?a < length (arrays w0)" using cf(3) by simp
  have h: "h = (case f of Some x \<Rightarrow> Some x | None \<Rightarrow> finalCallback (heap w0 ! this))"
    using assms(3) cf(8) by (simp split: option.splits)
  let ?R = "map Value (concat (map nowValues ts))
            @ map (\<lambda>e. Value (snd e)) (arrived is (pendingOf this ts))"
  have lenR: "length is = length (pendingOf this ts) \<Longrightarrow> length ?R = length ts"
    using once_lengths [OF assms(5), of this] by simp
  have wait0: "length is = length (pendingOf this ts) \<Longrightarrow> waiting is (pendingOf this ts) = []"
    using length_waiting [OF assms(8)] by simp
  show ?thesis
  proof (cases "ts = []")
    case True
    then have isn: "is = []" using assms(8) by simp
    let ?W = "w0\<lparr>heap := (heap w0)[this := (heap w0 ! this)
          \<lparr>finalCallback := h, taskMode := Pool, isStarted := True, isFinished := True\<rparr>],
        fired := fired w0 @ firedEntry this h []\<rparr>"
    have "step g (Start this f (Some Pool)) w0 = (?W, finalCalls h ?a)"
      using step_start_empty [of this w0 g f "Some Pool"] alive cf True assms(1) h
      by (simp del: step.simps)
    then have s1: "step g (PoolCall this f) w0 = (?W, finalCalls h ?a)"
      by (simp only: step_PoolCall_Start)
    have "reaches g (w, New options # PoolCall this f # map Deliver is) (?W, [])"
      using isn reaches_finalCalls_caller [OF assms(6), of g ?W ?a "[]"]
      by (intro reaches_step [OF s0]) (simp, intro reaches_step [OF s1], simp)
    from reaches_run [OF this] obtain n
      where "run g n w (New options # PoolCall this f # map Deliver is) = Some ?W" ..
    moreover have "invoked ?W = invoked w @ map (Pair this) ts" using True cf by simp
    moreover have "results ?W this = ?R" using True isn alive cf by (simp add: results_def)
    moreover have "pending ?W = waiting is (pendingOf this ts)" using True isn cf assms(7) by simp
    moreover have "isFinished (heap ?W ! this)" using alive by simp
    moreover have "length is = length (pendingOf this ts)" using True isn by simp
    moreover have "fired ?W = fired w @ firedEntry this h (results ?W this)"
      using True isn alive cf by (simp add: results_def)
    ultimately show ?thesis using True isn by (intro exI [of _ n] exI [of _ ?W]) simp
  next
    case False
    note pre = alive cf(4) addr
    have tsk: "asyncTaskList (heap w0 ! this) = ts" using cf(5) assms(1) by simp
    have small: "length ts \<le> asyncPoolChunkSize" using assms(4) by (simp add: asyncPoolChunkSize_def)
    have pd0: "pending w0 = []" using cf(10) assms(7) by simp
    show ?thesis
    proof (cases "length is = length (pendingOf this ts)")
      case True
      let ?W = "w0\<lparr>arrays := (arrays w0)[?a := ?R],
        pending := [],
        invoked := invoked w0 @ map (Pair this) ts,
        heap := (heap w0)[this := (heap w0 ! this)
                  \<lparr>finalCallback := h, taskMode := Pool, isStarted := True, isFinished := True\<rparr>],
        fired := fired w0 @ firedEntry this h ?R\<rparr>"
      have r: "reaches g (w0, PoolCall this f # map Deliver is @ []) (?W, finalCalls h ?a @ [])"
        using pre tsk False small assms(5,8) cf(6,7,9) pd0 True h
        by (intro pool_fresh_all) simp_all
      have "reaches g (w, New options # PoolCall this f # map Deliver is) (?W, [])"
        by (rule reaches_step [OF s0], use r in simp,
            rule reaches_trans [OF _ reaches_finalCalls_caller [OF assms(6), of g ?W ?a "[]", simplified]])
      from reaches_run [OF this] obtain n
        where "run g n w (New options # PoolCall this f # map Deliver is) = Some ?W" ..
      moreover have "invoked ?W = invoked w @ map (Pair this) ts" using cf by simp
      moreover have res: "results ?W this = ?R" using alive addr cf by (simp add: results_def)
      moreover have "pending ?W = waiting is (pendingOf this ts)" using wait0 [OF True] by simp
      moreover have "isFinished (heap ?W ! this)" using alive by simp
      moreover have "fired ?W = fired w @ firedEntry this h (results ?W this)"
        unfolding res using cf(12) by simp
      ultimately show ?thesis using True lenR
        by (intro exI [of _ n] exI [of _ ?W]) simp
    next
      case False
      with inRange_length [OF assms(8)] have less: "length is < length (pendingOf this ts)" by simp
      let ?W = "w0\<lparr>arrays := (arrays w0)[?a := ?R],
        pending := waiting is (pendingOf this ts),
        invoked := invoked w0 @ map (Pair this) ts,
        heap := (heap w0)[this := (heap w0 ! this)
                  \<lparr>finalCallback := h, taskMode := Pool, isStarted := True\<rparr>]\<rparr>"
      have r: "reaches g (w0, PoolCall this f # map Deliver is @ []) (?W, [])"
        using pre tsk \<open>ts \<noteq> []\<close> small assms(5,8) cf(6,9) pd0 less h
        by (intro pool_fresh_some) simp_all
      have "reaches g (w, New options # PoolCall this f # map Deliver is) (?W, [])"
        by (rule reaches_step [OF s0]) (use r in simp)
      from reaches_run [OF this] obtain n
        where "run g n w (New options # PoolCall this f # map Deliver is) = Some ?W" ..
      moreover have "invoked ?W = invoked w @ map (Pair this) ts" using cf by simp
      moreover have res: "results ?W this = ?R" using alive addr cf by (simp add: results_def)
      moreover have "pending ?W = waiting is (pendingOf this ts)" by simp
      moreover have "\<not> isFinished (heap ?W ! this)" using alive cf by simp
      moreover have "fired ?W = fired w" using cf by simp
      ultimately show ?thesis using False
        by (intro exI [of _ n] exI [of _ ?W]) simp
    qed
  qed
qed

lemma mixedTasks_tasks:
  "constructorTasks exampleUUID (Suc (uuidCount (emptyWorld :: nat world))) (optionTasks (exampleOptions mixedTasks))
     = [Task (UserFunction (codeUnits ''deferred'') [] [10]) (trim (exampleUUID 1)),
        Task (UserFunction (codeUnits ''sync'') [20] []) (trim (exampleUUID 2)),
        Task (UserFunction (codeUnits ''deferred'') [] [30]) (trim (exampleUUID 3))]"
  by (simp add: emptyWorld_def optionTasks_def exampleOptions_def mixedTasks_def deferredTask_def
        syncTask_def nameTask_def wrapCandidate_def numeral_2_eq_2 numeral_3_eq_3)

theorem pool_within_chunk_size_witness:
  "length (constructorTasks exampleUUID (Suc (uuidCount (emptyWorld :: nat world)))
             (optionTasks (exampleOptions mixedTasks))) \<le> 30
   \<and> list_all callsBackOnce (constructorTasks exampleUUID (Suc (uuidCount (emptyWorld :: nat world)))
             (optionTasks (exampleOptions mixedTasks)))
   \<and> callerHandler (Some (UserCallback 1 :: nat finalCallback))
   \<and> inRange [1, 0] (length (pendingOf 0 (constructorTasks exampleUUID
          (Suc (uuidCount (emptyWorld :: nat world))) (optionTasks (exampleOptions mixedTasks)))))
   \<and> (\<exists>n w'. run exampleUUID n emptyWorld
          (New (exampleOptions mixedTasks) # PoolCall 0 (Some (UserCallback 1)) # map Deliver [1, 0])
            = Some w'
        \<and> results w' 0 = [Value 20, Value 30, Value 10]
        \<and> isFinished (heap w' ! 0) \<and> pending w' = []
        \<and> fired w' = [(0, UserCallback 1, [Value 20, Value 30, Value 10])])"
proof -
  let ?ts = "constructorTasks exampleUUID (Suc (uuidCount (emptyWorld :: nat world)))
               (optionTasks (exampleOptions mixedTasks))"
  have pd: "pendingOf 0 ?ts =
      [(TaskCallback 0 (Task (UserFunction (codeUnits ''deferred'') [] [10]) (trim (exampleUUID 1))) False, 10),
       (TaskCallback 0 (Task (UserFunction (codeUnits ''deferred'') [] [30]) (trim (exampleUUID 3))) False, 30)]"
    by (simp add: mixedTasks_tasks pendingOf_def laterValues_def)
  have nv: "concat (map nowValues ?ts) = [20]"
    by (simp add: mixedTasks_tasks nowValues_def)
  have h4: "length ?ts \<le> 30" by (simp add: mixedTasks_tasks)
  have h5: "\<forall>t\<in>set ?ts. callsBackOnce t" by (simp add: mixedTasks_tasks callsBackOnce_def)
  have h6: "callerHandler (case Some (UserCallback 1 :: nat finalCallback) of Some x \<Rightarrow> Some x
                           | None \<Rightarrow> finalCallback_opt (exampleOptions mixedTasks))"
    by (simp add: callerHandler_def)
  have h7: "pending (emptyWorld :: nat world) = []" by (simp add: emptyWorld_def)
  have h8: "inRange [1, 0] (length (pendingOf (length (heap (emptyWorld :: nat world))) ?ts))"
    using pd by (simp add: emptyWorld_def)
  have l0: "length (heap (emptyWorld :: nat world)) = 0" by (simp add: emptyWorld_def)
  from pool_within_chunk_size [OF refl refl refl h4 h5 h6 h7 h8]
  obtain n w' where
    "run exampleUUID n emptyWorld
       (New (exampleOptions mixedTasks) # PoolCall 0 (Some (UserCallback 1)) # map Deliver [1, 0]) = Some w'"
    "results w' 0 = [Value 20, Value 30, Value 10]"
    "isFinished (heap w' ! 0)" "pending w' = []"
    "fired w' = [(0, UserCallback 1, [Value 20, Value 30, Value 10])]"
    unfolding l0 pd nv by (auto simp: emptyWorld_def firedEntry_def)
  then show ?thesis using h4 h5 h8 by (auto simp: callerHandler_def l0 list_all_iff)
qed

section \<open>Queue mode\<close>

lemma step_QueueCall_fresh:
  assumes "this < length (heap w)" and "\<not> isStarted (heap w ! this)"
    and "asyncTaskList (heap w ! this) \<noteq> []"
  shows "step g (QueueCall this f) w =
     (w\<lparr>heap := (heap w)[this := (heap w ! this)
          \<lparr>finalCallback := (case f of Some h \<Rightarrow> Some h | None \<Rightarrow> finalCallback (heap w ! this)),
           taskMode := Queue, isStarted := True\<rparr>]\<rparr>,
      [ProcessNextQueueTask this])"
  using assms by (simp add: alive_def queue_def start_def Let_def)

lemma queue_drive:
  assumes "p < length (heap w)" and "asyncTaskResultList (heap w ! p) = a" and "a < length (arrays w)"
    and "asyncTaskList (heap w ! p) = done @ us" and "us \<noteq> []"
    and "length (arrays w ! a) = length done"
    and "\<forall>t\<in>set us. callsBackOnce t"
    and "\<not> isFinished (heap w ! p)"
    and "finalCallback (heap w ! p) = h" and "callerHandler h"
    and "pending w = []"
  shows "reaches g (w, ProcessNextQueueTask p
                       # replicate (length (concat (map laterValues us))) (Deliver 0) @ rest)
     (w\<lparr>arrays := (arrays w)[a := arrays w ! a @ map Value (concat (map callbackValues us))],
        invoked := invoked w @ map (Pair p) us,
        heap := (heap w)[p := (heap w ! p)\<lparr>isFinished := True\<rparr>],
        fired := fired w @ firedEntry p h
                   (arrays w ! a @ map Value (concat (map callbackValues us)))\<rparr>,
      rest)"
  using assms
proof (induction us arbitrary: w "done")
  case Nil
  then show ?case by simp
next
  case (Cons t us)
  let ?cb = "TaskCallback p t True"
  let ?w1 = "w\<lparr>invoked := invoked w @ [(p, t)]\<rparr>"
  let ?k = "length (concat (map laterValues us))"
  let "reaches _ _ (?Y, _)" = ?case
  have nth: "asyncTaskList (heap w ! p) ! length (arrays w ! a) = t"
    using Cons.prems(4,6) by simp
  have s1: "step g (ProcessNextQueueTask p) w = (?w1, [Invoke (asyncTaskFunction t) ?cb])"
    using step_ProcessNext_run [of p w a g] Cons.prems(1,2,4,6) nth by simp
  from Cons.prems(7) have once: "callsBackOnce t" by simp
  \<comment> \<open>up to the call of the callback\<close>
  have upto: "\<exists>r. callbackValues t = [r] \<and>
     reaches g (w, ProcessNextQueueTask p
                    # replicate (length (concat (map laterValues (t # us)))) (Deliver 0) @ rest)
       (?w1, CallBack ?cb (Value r) # replicate ?k (Deliver 0) @ rest)"
    using once
  proof (cases rule: callsBackOnce_cases)
    case (now name r)
    then have nv: "nowValues t = [r]" and lv: "laterValues t = []"
      by (simp_all add: nowValues_def laterValues_def)
    have s2: "step g (Invoke (asyncTaskFunction t) ?cb) ?w1 = (?w1, [CallBack ?cb (Value r)])"
      by (simp add: now invoke_def)
    have "reaches g (w, ProcessNextQueueTask p
                    # replicate (length (concat (map laterValues (t # us)))) (Deliver 0) @ rest)
       (?w1, CallBack ?cb (Value r) # replicate ?k (Deliver 0) @ rest)"
      using lv by (intro reaches_step [OF s1]) (simp, intro reaches_step [OF s2], simp)
    then show ?thesis using nv lv by (auto simp: callbackValues_def)
  next
    case (later name r)
    then have nv: "nowValues t = []" and lv: "laterValues t = [r]"
      by (simp_all add: nowValues_def laterValues_def)
    let ?w2 = "?w1\<lparr>pending := [(?cb, r)]\<rparr>"
    have s2: "step g (Invoke (asyncTaskFunction t) ?cb) ?w1 = (?w2, [])"
      using Cons.prems(11) by (simp add: later invoke_def)
    have s3: "step g (Deliver 0) ?w2 = (?w1, [CallBack ?cb (Value r)])"
    proof -
      have "?w2\<lparr>pending := take 0 (pending ?w2) @ drop (Suc 0) (pending ?w2)\<rparr> = ?w1"
        using Cons.prems(11) by (intro world.equality) simp_all
      then show ?thesis using step_Deliver [of 0 ?w2 g] by simp
    qed
    have "reaches g (w, ProcessNextQueueTask p
                    # replicate (length (concat (map laterValues (t # us)))) (Deliver 0) @ rest)
       (?w1, CallBack ?cb (Value r) # replicate ?k (Deliver 0) @ rest)"
      using lv by (intro reaches_step [OF s1]) (simp, intro reaches_step [OF s2], simp,
                     intro reaches_step [OF s3], simp)
    then show ?thesis using nv lv by (auto simp: callbackValues_def)
  qed
  then obtain r where cv: "callbackValues t = [r]"
    and r0: "reaches g (w, ProcessNextQueueTask p
                    # replicate (length (concat (map laterValues (t # us)))) (Deliver 0) @ rest)
       (?w1, CallBack ?cb (Value r) # replicate ?k (Deliver 0) @ rest)" by blast
  show ?case
  proof (cases "us = []")
    case False
    then have more: "Suc (length (arrays w ! a)) < length (asyncTaskList (heap w ! p))"
      using Cons.prems(4,6) by (cases us) simp_all
    let ?w3 = "?w1\<lparr>arrays := (arrays w)[a := arrays w ! a @ [Value r]]\<rparr>"
    have s4: "step g (CallBack ?cb (Value r)) ?w1 = (?w3, [ProcessNextQueueTask p])"
      using step_CallBack_more [where this = p and w = ?w1 and a = a and t = t and g = g
                                  and b = True and v = "Value r"]
        Cons.prems more by simp
    have ih: "reaches g (?w3, ProcessNextQueueTask p # replicate ?k (Deliver 0) @ rest)
      (?w3\<lparr>arrays := (arrays ?w3)[a := arrays ?w3 ! a @ map Value (concat (map callbackValues us))],
        invoked := invoked ?w3 @ map (Pair p) us,
        heap := (heap ?w3)[p := (heap ?w3 ! p)\<lparr>isFinished := True\<rparr>],
        fired := fired ?w3 @ firedEntry p h
                   (arrays ?w3 ! a @ map Value (concat (map callbackValues us)))\<rparr>,
       rest)" (is "reaches _ _ (?X, _)")
      using Cons.prems False
      by (intro Cons.IH [where ?done = "done @ [t]"]) simp_all
    have r1: "reaches g (?w1, CallBack ?cb (Value r) # replicate ?k (Deliver 0) @ rest)
                (?w3, ProcessNextQueueTask p # replicate ?k (Deliver 0) @ rest)"
      by (rule reaches_step [OF s4]) simp
    note r = reaches_trans [OF reaches_trans [OF r0 r1] ih]
    have eq: "?X = ?Y"
      using Cons.prems(3) by (intro world.equality) (simp_all add: cv)
    show ?thesis using r unfolding eq .
  next
    case True
    then have last: "length (asyncTaskList (heap w ! p)) \<le> Suc (length (arrays w ! a))"
      using Cons.prems(4,6) by simp
    have k0: "?k = 0" using True by simp
    let ?w3 = "?w1\<lparr>arrays := (arrays w)[a := arrays w ! a @ [Value r]],
        heap := (heap w)[p := (heap w ! p)\<lparr>isFinished := True\<rparr>],
        fired := fired w @ firedEntry p h (arrays w ! a @ [Value r])\<rparr>"
    have s4: "step g (CallBack ?cb (Value r)) ?w1
                = (?w3, finalCalls h a @ [ProcessNextQueueTask p])"
      using step_CallBack_last' [where this = p and w = ?w1 and a = a and t = t and g = g
                                   and b = True and v = "Value r" and h = h]
        Cons.prems last by simp
    have s5: "step g (ProcessNextQueueTask p) ?w3 = (?w3, [])"
      using step_ProcessNext_done [of ?w3 p a g] Cons.prems(1,2,3) last by simp
    have r1: "reaches g (?w1, CallBack ?cb (Value r) # replicate ?k (Deliver 0) @ rest) (?w3, rest)"
      unfolding k0
      by (rule reaches_step [OF s4], simp,
          rule reaches_trans [OF reaches_finalCalls_caller [OF Cons.prems(10)]],
          rule reaches_step [OF s5], simp)
    note r = reaches_trans [OF r0 r1]
    have eq: "?w3 = ?Y"
      using True by (intro world.equality) (simp_all add: cv)
    show ?thesis using r unfolding eq .
  qed
qed

lemma once_callbackValues:
  "\<forall>t\<in>set ts. callsBackOnce t \<Longrightarrow> length (concat (map callbackValues ts)) = length ts"
proof (induction ts)
  case Nil
  then show ?case by simp
next
  case (Cons t ts)
  then have "callsBackOnce t" by simp
  then have "length (callbackValues t) = 1"
    by (cases rule: callsBackOnce_cases) (simp_all add: callbackValues_def nowValues_def laterValues_def)
  with Cons show ?case by simp
qed

text \<open>
  Claim C1. A coordinator is constructed with a non-empty list of tasks, each calling
  back exactly once (now or later), and \<open>queue\<close> is called on it; the scheduler then
  delivers each deferred callback (there is never more than one pending). The run ends;
  the result list then holds the tasks' values in the order of the registry and is as
  long as the registry, the tasks have been run once each in that order, the
  coordinator is finished and its handler has been invoked once with the result list.
  The driver always runs the task at the index that is the length of the result list.
\<close>

theorem queue_results_in_registry_order:
  fixes w :: "'r world"
  assumes "ts = constructorTasks g (Suc (uuidCount w)) (optionTasks options)"
    and "this = length (heap w)"
    and "h = (case f of Some x \<Rightarrow> Some x | None \<Rightarrow> finalCallback_opt options)"
    and "ts \<noteq> []"
    and "\<forall>t\<in>set ts. callsBackOnce t"
    and "callerHandler h"
    and "pending w = []"
  shows "(\<exists>n w'. run g n w (New options # QueueCall this f
                    # replicate (length (concat (map laterValues ts))) (Deliver 0)) = Some w' \<and>
            results w' this = map Value (concat (map callbackValues ts)) \<and>
            length (results w' this) = length ts \<and>
            invoked w' = invoked w @ map (Pair this) ts \<and>
            isFinished (heap w' ! this) \<and> pending w' = [] \<and>
            fired w' = fired w @ firedEntry this h (results w' this))
       \<and> (\<forall>(v :: 'r world) c. c < length (heap v) \<and> length (results v c) < length (asyncTaskList (heap v ! c))
             \<longrightarrow> step g (ProcessNextQueueTask c) v =
                   (v\<lparr>invoked := invoked v @ [(c, asyncTaskList (heap v ! c) ! length (results v c))]\<rparr>,
                    [Invoke (asyncTaskFunction (asyncTaskList (heap v ! c) ! length (results v c)))
                       (TaskCallback c (asyncTaskList (heap v ! c) ! length (results v c)) True)]))"
proof -
  obtain w0 where c: "construct g options w = (this, w0)"
    using assms(2) by (simp add: construct_eq)
  note cf = construct_fields [OF c]
  let ?a = "length (arrays w)"
  have s0: "step g (New options) w = (w0, [])" using c by simp
  have alive: "this < length (heap w0)" using cf(1,2) by simp
  have addr: "?a < length (arrays w0)" using cf(3) by simp
  have h: "h = (case f of Some x \<Rightarrow> Some x | None \<Rightarrow> finalCallback (heap w0 ! this))"
    using assms(3) cf(8) by (simp split: option.splits)
  have tsk: "asyncTaskList (heap w0 ! this) = ts" using cf(5) assms(1) by simp
  let ?w1 = "w0\<lparr>heap := (heap w0)[this := (heap w0 ! this)
          \<lparr>finalCallback := h, taskMode := Queue, isStarted := True\<rparr>]\<rparr>"
  have s1: "step g (QueueCall this f) w0 = (?w1, [ProcessNextQueueTask this])"
    using step_QueueCall_fresh [of this w0 g f] alive cf(6) tsk assms(4) h by simp
  let ?R = "map Value (concat (map callbackValues ts))"
  let ?k = "length (concat (map laterValues ts))"
  let ?W = "?w1\<lparr>arrays := (arrays ?w1)[?a := arrays ?w1 ! ?a @ ?R],
        invoked := invoked ?w1 @ map (Pair this) ts,
        heap := (heap ?w1)[this := (heap ?w1 ! this)\<lparr>isFinished := True\<rparr>],
        fired := fired ?w1 @ firedEntry this h (arrays ?w1 ! ?a @ ?R)\<rparr>"
  have r: "reaches g (?w1, ProcessNextQueueTask this # replicate ?k (Deliver 0) @ []) (?W, [])"
    using alive addr cf(4,7,9,10) tsk assms(4,5,6,7)
    by (intro queue_drive [where ?done = "[]"]) simp_all
  have "reaches g (w, New options # QueueCall this f # replicate ?k (Deliver 0)) (?W, [])"
    by (rule reaches_step [OF s0], simp, rule reaches_step [OF s1], use r in simp)
  from reaches_run [OF this] obtain n
    where run: "run g n w (New options # QueueCall this f # replicate ?k (Deliver 0)) = Some ?W" ..
  have res: "results ?W this = ?R" using alive addr cf(4,9) by (simp add: results_def)
  have "length (results ?W this) = length ts"
    unfolding res using once_callbackValues [OF assms(5)] by simp
  moreover have "invoked ?W = invoked w @ map (Pair this) ts" using cf(11) by simp
  moreover have "isFinished (heap ?W ! this)" using alive by simp
  moreover have "pending ?W = []" using cf(10) assms(7) by simp
  moreover have "fired ?W = fired w @ firedEntry this h (results ?W this)"
    unfolding res using cf(9,12) by simp
  ultimately have A: "\<exists>n w'. run g n w (New options # QueueCall this f # replicate ?k (Deliver 0)) = Some w' \<and>
            results w' this = ?R \<and> length (results w' this) = length ts \<and>
            invoked w' = invoked w @ map (Pair this) ts \<and>
            isFinished (heap w' ! this) \<and> pending w' = [] \<and>
            fired w' = fired w @ firedEntry this h (results w' this)"
    using run res by blast
  have B: "step g (ProcessNextQueueTask c) v =
                   (v\<lparr>invoked := invoked v @ [(c, asyncTaskList (heap v ! c) ! length (results v c))]\<rparr>,
                    [Invoke (asyncTaskFunction (asyncTaskList (heap v ! c) ! length (results v c)))
                       (TaskCallback c (asyncTaskList (heap v ! c) ! length (results v c)) True)])"
    if "c < length (heap v) \<and> length (results v c) < length (asyncTaskList (heap v ! c))"
    for v :: "'r world" and c
    using that step_ProcessNext_run [of c v "asyncTaskResultList (heap v ! c)" g]
    by (simp add: results_def del: step.simps)
  from A B show ?thesis by blast
qed

lemma fiveTasks_tasks:
  "constructorTasks exampleUUID (Suc (uuidCount (emptyWorld :: nat world))) (optionTasks (exampleOptions fiveTasks))
     = [Task (UserFunction (codeUnits ''deferred'') [] [0]) (trim (exampleUUID 1)),
        Task (UserFunction (codeUnits ''sync'') [1] []) (trim (exampleUUID 2)),
        Task (UserFunction (codeUnits ''deferred'') [] [2]) (trim (exampleUUID 3)),
        Task (UserFunction (codeUnits ''sync'') [3] []) (trim (exampleUUID 4)),
        Task (UserFunction (codeUnits ''sync'') [4] []) (trim (exampleUUID 5))]"
  by (simp add: emptyWorld_def optionTasks_def exampleOptions_def fiveTasks_def deferredTask_def
        syncTask_def nameTask_def wrapCandidate_def eval_nat_numeral)

theorem queue_results_in_registry_order_witness:
  "constructorTasks exampleUUID (Suc (uuidCount (emptyWorld :: nat world)))
             (optionTasks (exampleOptions fiveTasks)) \<noteq> []
   \<and> list_all callsBackOnce (constructorTasks exampleUUID (Suc (uuidCount (emptyWorld :: nat world)))
             (optionTasks (exampleOptions fiveTasks)))
   \<and> callerHandler (Some (UserCallback 1 :: nat finalCallback))
   \<and> (\<exists>n w'. run exampleUUID n emptyWorld
          (New (exampleOptions fiveTasks) # QueueCall 0 (Some (UserCallback 1)) # replicate 2 (Deliver 0))
            = Some w'
        \<and> results w' 0 = [Value 0, Value 1, Value 2, Value 3, Value 4]
        \<and> isFinished (heap w' ! 0) \<and> pending w' = []
        \<and> fired w' = [(0, UserCallback 1, [Value 0, Value 1, Value 2, Value 3, Value 4])])"
proof -
  let ?ts = "constructorTasks exampleUUID (Suc (uuidCount (emptyWorld :: nat world)))
               (optionTasks (exampleOptions fiveTasks))"
  have lv: "length (concat (map laterValues ?ts)) = 2"
    by (simp add: fiveTasks_tasks laterValues_def)
  have cv: "concat (map callbackValues ?ts) = [0, 1, 2, 3, 4]"
    by (simp add: fiveTasks_tasks callbackValues_def nowValues_def laterValues_def)
  have h4: "?ts \<noteq> []" by (simp add: fiveTasks_tasks)
  have h5: "\<forall>t\<in>set ?ts. callsBackOnce t" by (simp add: fiveTasks_tasks callsBackOnce_def)
  have h6: "callerHandler (case Some (UserCallback 1 :: nat finalCallback) of Some x \<Rightarrow> Some x
                           | None \<Rightarrow> finalCallback_opt (exampleOptions fiveTasks))"
    by (simp add: callerHandler_def)
  have h7: "pending (emptyWorld :: nat world) = []" by (simp add: emptyWorld_def)
  have l0: "length (heap (emptyWorld :: nat world)) = 0" by (simp add: emptyWorld_def)
  from queue_results_in_registry_order [OF refl refl refl h4 h5 h6 h7]
  obtain n w' where
    "run exampleUUID n emptyWorld
       (New (exampleOptions fiveTasks) # QueueCall 0 (Some (UserCallback 1)) # replicate 2 (Deliver 0)) = Some w'"
    "results w' 0 = [Value 0, Value 1, Value 2, Value 3, Value 4]"
    "isFinished (heap w' ! 0)" "pending w' = []"
    "fired w' = [(0, UserCallback 1, [Value 0, Value 1, Value 2, Value 3, Value 4])]"
    unfolding l0 lv cv by (auto simp: emptyWorld_def firedEntry_def)
  then show ?thesis using h4 h5 by (auto simp: callerHandler_def list_all_iff)
qed

section \<open>Pool mode beyond the chunk size\<close>

lemma constructorTasks_child:
  "constructorTasks g n (childCandidates ch) = map retrim ch"
  by (induction ch arbitrary: n)
     (simp_all add: childCandidates_def retrim_def nameTask_def wrapCandidate_def)

lemma constructorTasks_chunks:
  "map asyncTaskFunction (constructorTasks g n (chunkCandidates d chunks)) = map (ChunkFunction d) chunks"
  by (induction chunks arbitrary: n)
     (simp_all add: chunkCandidates_def nameTask_def wrapCandidate_def)

lemma length_constructorTasks [simp]: "length (constructorTasks g n cs) = length cs"
  by (induction cs arbitrary: n) simp_all

lemma retrim_simps [simp]:
  "asyncTaskFunction (retrim t) = asyncTaskFunction t"
  "nowValues (retrim t) = nowValues t" "laterValues (retrim t) = laterValues t"
  "callsBackOnce (retrim t) = callsBackOnce t"
  by (simp_all add: retrim_def nowValues_def laterValues_def callsBackOnce_def)

lemma map_snd_pendingOf: "map snd (pendingOf p ts) = concat (map laterValues ts)"
  by (induction ts) (simp_all add: pendingOf_Cons comp_def)

lemma arrived_map: "inRange is (length pd) \<Longrightarrow> map f (arrived is pd) = arrived is (map f pd)"
proof (induction "is" arbitrary: pd)
  case Nil
  then show ?case by simp
next
  case (Cons i "is")
  then have i: "i < length pd" by simp
  then have "inRange is (length (take i pd @ drop (Suc i) pd))"
    using Cons.prems by (simp add: removed_length)
  from Cons.IH [OF this] i show ?case by (simp add: take_map drop_map)
qed

lemma map_retrim_values [simp]:
  "map laterValues (map retrim ch) = map laterValues ch"
  "map nowValues (map retrim ch) = map nowValues ch"
  by (induction ch) simp_all

lemma length_pendingOf_later: "length (pendingOf p ts) = length (concat (map laterValues ts))"
proof -
  have "length (map snd (pendingOf p ts)) = length (concat (map laterValues ts))"
    by (simp only: map_snd_pendingOf)
  then show ?thesis by (simp only: length_map)
qed

lemma child_results:
  assumes "inRange is (length (concat (map laterValues ch)))"
  shows "map Value (concat (map nowValues (map retrim ch)))
           @ map (\<lambda>e. Value (snd e)) (arrived is (pendingOf p (map retrim ch)))
         = map Value (arrivalOrder ch is)"
proof -
  let ?pd = "pendingOf p (map retrim ch)"
  have l: "length ?pd = length (concat (map laterValues ch))"
    by (simp only: length_pendingOf_later map_retrim_values)
  have "map snd (arrived is ?pd) = arrived is (map snd ?pd)"
    using assms l by (intro arrived_map) (simp only:)
  also have "map snd ?pd = concat (map laterValues ch)"
    by (simp only: map_snd_pendingOf map_retrim_values)
  finally have "map Value (map snd (arrived is ?pd)) = map Value (arrived is (concat (map laterValues ch)))"
    by (simp only:)
  then have "map (\<lambda>e. Value (snd e)) (arrived is ?pd)
              = map Value (arrived is (concat (map laterValues ch)))"
    by (simp only: map_map comp_def)
  then show ?thesis
    by (simp only: arrivalOrder_def map_append map_retrim_values)
qed

lemma chunk_run:
  assumes "q < length (heap w)" and "asyncTaskResultList (heap w ! q) = aq"
    and "length (arrays w ! aq) < length (asyncTaskList (heap w ! q))"
    and "asyncTaskList (heap w ! q) ! length (arrays w ! aq) = ct"
    and "asyncTaskFunction ct = ChunkFunction d ch"
    and "ch \<noteq> []" and "length ch \<le> asyncPoolChunkSize"
    and "\<forall>t\<in>set ch. callsBackOnce t"
    and "pending w = []" and "completeFor ch is"
  shows "reaches g (w, ProcessNextQueueTask q # map Deliver is @ rest)
     (w\<lparr>heap := heap w @
             [\<lparr>taskMode = Pool,
               asyncTaskList = map retrim ch,
               asyncTaskResultList = length (arrays w),
               finalCallback = Some (ForwardTo (TaskCallback q ct True)),
               isStarted = True, isFinished = True,
               isDebug = d,
               instanceID = (codeUnits ''AsyncTaskHelper::'') @ g (uuidCount w)\<rparr>],
        arrays := arrays w @ [map Value (arrivalOrder ch is)],
        uuidCount := Suc (uuidCount w) + length ch,
        invoked := invoked w @ (q, ct) # map (Pair (length (heap w))) (map retrim ch),
        fired := fired w @ [(length (heap w), ForwardTo (TaskCallback q ct True),
                             map Value (arrivalOrder ch is))]\<rparr>,
      CallBack (TaskCallback q ct True) (ArrayRef (length (arrays w))) # rest)"
proof -
  let ?cb = "TaskCallback q ct True"
  let ?p = "length (heap w)"
  let ?a = "length (arrays w)"
  let ?ts = "map retrim ch"
  let ?h = "Some (ForwardTo ?cb)"
  let ?w1 = "w\<lparr>invoked := invoked w @ [(q, ct)]\<rparr>"
  let ?opts = "\<lparr>debug = Some d, taskMode_opt = None,
                asyncTaskList_opt = Some (map (\<lambda>t. TaskRecord (asyncTaskFunction t) (Named (taskName t))) ch),
                finalCallback_opt = None\<rparr>"
  have s1: "step g (ProcessNextQueueTask q) w = (?w1, [Invoke (asyncTaskFunction ct) ?cb])"
    using step_ProcessNext_run [of q w aq g] assms(1-4) by simp
  obtain w2 where c: "construct g ?opts ?w1 = (?p, w2)"
    by (simp add: construct_eq)
  note cf = construct_fields [OF c]
  have ot: "optionTasks ?opts = childCandidates ch"
    by (simp add: optionTasks_def childCandidates_def)
  have s2: "step g (Invoke (asyncTaskFunction ct) ?cb) ?w1 = (w2, [PoolCall ?p ?h])"
    using c by (simp add: assms(5) invoke_def)
  have tsk: "asyncTaskList (heap w2 ! ?p) = ?ts"
    using cf(5) by (simp only: ot constructorTasks_child)
  have lp: "length (pendingOf ?p ?ts) = length (concat (map laterValues ch))"
    by (simp only: length_pendingOf_later map_retrim_values)
  let ?R = "map Value (concat (map nowValues ?ts))
            @ map (\<lambda>e. Value (snd e)) (arrived is (pendingOf ?p ?ts))"
  let ?X = "w2\<lparr>arrays := (arrays w2)[?a := ?R],
        pending := [],
        invoked := invoked w2 @ map (Pair ?p) ?ts,
        heap := (heap w2)[?p := (heap w2 ! ?p)
                  \<lparr>finalCallback := ?h, taskMode := Pool, isStarted := True, isFinished := True\<rparr>],
        fired := fired w2 @ firedEntry ?p ?h ?R\<rparr>"
  have r3: "reaches g (w2, PoolCall ?p ?h # map Deliver is @ rest) (?X, finalCalls ?h ?a @ rest)"
  proof (rule pool_fresh_all)
    show "?p < length (heap w2)" using cf(2) by simp
    show "asyncTaskResultList (heap w2 ! ?p) = ?a" using cf(4) by simp
    show "?a < length (arrays w2)" using cf(3) by simp
    show "asyncTaskList (heap w2 ! ?p) = ?ts" by (rule tsk)
    show "?ts \<noteq> []" using assms(6) by simp
    show "length ?ts \<le> asyncPoolChunkSize" using assms(7) by simp
    show "\<forall>t\<in>set ?ts. callsBackOnce t" using assms(8) by simp
    show "\<not> isStarted (heap w2 ! ?p)" by (rule cf(6))
    show "\<not> isFinished (heap w2 ! ?p)" by (rule cf(7))
    show "arrays w2 ! ?a = []" using cf(9) by simp
    show "pending w2 = []" using cf(10) assms(9) by simp
    show "inRange is (length (pendingOf ?p ?ts))" using assms(10) by (simp only: lp completeFor_def)
    show "length is = length (pendingOf ?p ?ts)" using assms(10) by (simp only: lp completeFor_def)
    show "?h = (case ?h of Some x \<Rightarrow> Some x | None \<Rightarrow> finalCallback (heap w2 ! ?p))" by simp
  qed
  have s4: "step g (CallFinal (ForwardTo ?cb) ?a) ?X = (?X, [CallBack ?cb (ArrayRef ?a)])"
    by (simp add: callFinal_def)
  have R: "?R = map Value (arrivalOrder ch is)"
    using assms(10) by (intro child_results) (simp only: completeFor_def)
  let "reaches _ _ (?Y, _)" = ?thesis
  have w2: "w2 = snd (construct g ?opts ?w1)" using c by simp
  have lc: "length (childCandidates ch) = length ch" by (simp add: childCandidates_def)
  have eq: "?X = ?Y"
    unfolding R
    by (intro world.equality)
       (simp_all add: w2 construct_eq ot constructorTasks_child lc assms(9)
          firedEntry_def)
  let ?D = "map Deliver is @ rest"
  have r1: "reaches g (w, ProcessNextQueueTask q # ?D) (?w1, Invoke (asyncTaskFunction ct) ?cb # ?D)"
    by (rule reaches_step [OF s1]) simp
  have r2: "reaches g (?w1, Invoke (asyncTaskFunction ct) ?cb # ?D) (w2, PoolCall ?p ?h # ?D)"
    by (rule reaches_step [OF s2]) simp
  have fc: "finalCalls ?h ?a = [CallFinal (ForwardTo ?cb) ?a]"
    by (simp add: finalCalls_def)
  have r4: "reaches g (?X, finalCalls ?h ?a @ rest) (?X, CallBack ?cb (ArrayRef ?a) # rest)"
    unfolding fc append_Cons append_Nil by (rule reaches_step [OF s4]) simp
  have "reaches g (w, ProcessNextQueueTask q # map Deliver is @ rest)
          (?X, CallBack ?cb (ArrayRef ?a) # rest)"
    by (rule reaches_trans [OF r1], rule reaches_trans [OF r2], rule reaches_trans [OF r3], rule r4)
  then show ?thesis unfolding eq .
qed

lemma afterChunk_fields:
  assumes "q < length (heap w)" and "asyncTaskResultList (heap w ! q) = aq" and "aq < length (arrays w)"
  shows "length (heap (afterChunk g q ct sch w)) = Suc (length (heap w))"
    and "\<And>i. i < length (heap w) \<Longrightarrow> heap (afterChunk g q ct sch w) ! i = heap w ! i"
    and "length (arrays (afterChunk g q ct sch w)) = Suc (length (arrays w))"
    and "arrays (afterChunk g q ct sch w) ! aq = arrays w ! aq @ [ArrayRef (length (arrays w))]"
    and "\<And>i. i < length (arrays w) \<Longrightarrow> i \<noteq> aq \<Longrightarrow> arrays (afterChunk g q ct sch w) ! i = arrays w ! i"
    and "arrays (afterChunk g q ct sch w) ! length (arrays w) = map Value (arrivalOrder (chunkOf ct) sch)"
    and "pending (afterChunk g q ct sch w) = pending w"
  using assms by (simp_all add: afterChunk_def Let_def nth_append)

lemma sequencer_drive:
  assumes "q < length (heap w)" and "asyncTaskResultList (heap w ! q) = aq" and "aq < length (arrays w)"
    and "asyncTaskList (heap w ! q) = done @ cts" and "cts \<noteq> []"
    and "length (arrays w ! aq) = length done"
    and "\<not> isFinished (heap w ! q)" and "finalCallback (heap w ! q) = hq"
    and "pending w = []"
    and "list_all chunkTask cts"
    and "list_all2 (\<lambda>ct is. completeFor (chunkOf ct) is) cts iss"
  shows "reaches g (w, ProcessNextQueueTask q # map Deliver (concat iss) @ rest)
     ((afterChunks g q cts iss w)
        \<lparr>heap := (heap (afterChunks g q cts iss w))
                   [q := (heap (afterChunks g q cts iss w) ! q)\<lparr>isFinished := True\<rparr>],
         fired := fired (afterChunks g q cts iss w)
                  @ firedEntry q hq (arrays (afterChunks g q cts iss w) ! aq)\<rparr>,
      finalCalls hq aq @ ProcessNextQueueTask q # rest)"
  using assms
proof (induction cts arbitrary: w "done" iss)
  case Nil
  then show ?case by simp
next
  case (Cons ct cts)
  from Cons.prems(11) obtain "is" iss' where iss: "iss = is # iss'"
    and cf: "completeFor (chunkOf ct) is"
    and rest2: "list_all2 (\<lambda>ct is. completeFor (chunkOf ct) is) cts iss'"
    by (cases iss) auto
  from Cons.prems(10) have ctk: "chunkTask ct" and ctks: "list_all chunkTask cts" by simp_all
  let ?cb = "TaskCallback q ct True"
  let ?ap = "length (arrays w)"
  let ?rs = "map Value (arrivalOrder (chunkOf ct) is)"
  let ?W3 = "w\<lparr>heap := heap w @
             [\<lparr>taskMode = Pool,
               asyncTaskList = map retrim (chunkOf ct),
               asyncTaskResultList = length (arrays w),
               finalCallback = Some (ForwardTo (TaskCallback q ct True)),
               isStarted = True, isFinished = True,
               isDebug = debugOf ct,
               instanceID = (codeUnits ''AsyncTaskHelper::'') @ g (uuidCount w)\<rparr>],
        arrays := arrays w @ [?rs],
        uuidCount := Suc (uuidCount w) + length (chunkOf ct),
        invoked := invoked w @ (q, ct) # map (Pair (length (heap w))) (map retrim (chunkOf ct)),
        fired := fired w @ [(length (heap w), ForwardTo (TaskCallback q ct True), ?rs)]\<rparr>"
  let ?D = "map Deliver (concat iss') @ rest"
  have nth: "asyncTaskList (heap w ! q) ! length (arrays w ! aq) = ct"
    using Cons.prems(4,6) by simp
  have lt: "length (arrays w ! aq) < length (asyncTaskList (heap w ! q))"
    using Cons.prems(4,6) by simp
  have r1: "reaches g (w, ProcessNextQueueTask q # map Deliver is @ ?D)
              (?W3, CallBack ?cb (ArrayRef ?ap) # ?D)"
    using ctk Cons.prems(1,2,9) lt nth cf
    by (intro chunk_run [where aq = aq]) (simp_all add: chunkTask_def list_all_iff)
  have W3q: "heap ?W3 ! q = heap w ! q" "q < length (heap ?W3)" "aq < length (arrays ?W3)"
    "arrays ?W3 ! aq = arrays w ! aq"
    using Cons.prems(1,3) by (simp_all add: nth_append)
  let ?A = "afterChunk g q ct is w"
  note af = afterChunk_fields [OF Cons.prems(1,2,3), where g = g and ct = ct and sch = "is"]
  show ?case
  proof (cases "cts = []")
    case False
    have more: "Suc (length (arrays ?W3 ! aq)) < length (asyncTaskList (heap ?W3 ! q))"
      using False Cons.prems(4,6) W3q by (cases cts) simp_all
    have s2: "step g (CallBack ?cb (ArrayRef ?ap)) ?W3
               = (?W3\<lparr>arrays := (arrays ?W3)[aq := arrays ?W3 ! aq @ [ArrayRef ?ap]]\<rparr>,
                  [ProcessNextQueueTask q])"
      using step_CallBack_more [where this = q and w = ?W3 and a = aq and t = ct and g = g
                                  and b = True and v = "ArrayRef ?ap"]
        W3q more Cons.prems(2) by simp
    have eqA: "?W3\<lparr>arrays := (arrays ?W3)[aq := arrays ?W3 ! aq @ [ArrayRef ?ap]]\<rparr> = ?A"
      using Cons.prems(2,3)
      by (intro world.equality) (simp_all add: afterChunk_def Let_def nth_append list_update_append1)
    have r2: "reaches g (?W3, CallBack ?cb (ArrayRef ?ap) # ?D) (?A, ProcessNextQueueTask q # ?D)"
      using s2 unfolding eqA by (rule reaches_step) simp
    have ih: "reaches g (?A, ProcessNextQueueTask q # map Deliver (concat iss') @ rest)
     ((afterChunks g q cts iss' ?A)
        \<lparr>heap := (heap (afterChunks g q cts iss' ?A))
                   [q := (heap (afterChunks g q cts iss' ?A) ! q)\<lparr>isFinished := True\<rparr>],
         fired := fired (afterChunks g q cts iss' ?A)
                  @ firedEntry q hq (arrays (afterChunks g q cts iss' ?A) ! aq)\<rparr>,
      finalCalls hq aq @ ProcessNextQueueTask q # rest)"
    proof (rule Cons.IH [where ?done = "done @ [ct]"])
      show "q < length (heap ?A)" using af(1) Cons.prems(1) by simp
      show "asyncTaskResultList (heap ?A ! q) = aq" using af(2) Cons.prems(1,2) by simp
      show "aq < length (arrays ?A)" using af(3) Cons.prems(3) by simp
      show "asyncTaskList (heap ?A ! q) = (done @ [ct]) @ cts" using af(2) Cons.prems(1,4) by simp
      show "cts \<noteq> []" by (rule False)
      show "length (arrays ?A ! aq) = length (done @ [ct])" using af(4) Cons.prems(6) by simp
      show "\<not> isFinished (heap ?A ! q)" using af(2) Cons.prems(1,7) by simp
      show "finalCallback (heap ?A ! q) = hq" using af(2) Cons.prems(1,8) by simp
      show "pending ?A = []" using af(7) Cons.prems(9) by simp
      show "list_all chunkTask cts" by (rule ctks)
      show "list_all2 (\<lambda>ct is. completeFor (chunkOf ct) is) cts iss'" by (rule rest2)
    qed
    have "reaches g (w, ProcessNextQueueTask q # map Deliver is @ ?D)
                    (?A, ProcessNextQueueTask q # ?D)"
      by (rule reaches_trans [OF r1 r2])
    from reaches_trans [OF this ih] show ?thesis
      by (simp add: iss)
  next
    case True
    with rest2 have iss': "iss' = []" by simp
    have last: "length (asyncTaskList (heap ?W3 ! q)) \<le> Suc (length (arrays ?W3 ! aq))"
      using True Cons.prems(4,6) W3q by simp
    let ?W4 = "?W3\<lparr>arrays := (arrays ?W3)[aq := arrays ?W3 ! aq @ [ArrayRef ?ap]],
        heap := (heap ?W3)[q := (heap ?W3 ! q)\<lparr>isFinished := True\<rparr>],
        fired := fired ?W3 @ firedEntry q hq (arrays ?W3 ! aq @ [ArrayRef ?ap])\<rparr>"
    have s2: "step g (CallBack ?cb (ArrayRef ?ap)) ?W3
               = (?W4, finalCalls hq aq @ [ProcessNextQueueTask q])"
      using step_CallBack_last' [where this = q and w = ?W3 and a = aq and t = ct and g = g
                                   and b = True and v = "ArrayRef ?ap" and h = hq]
        W3q last Cons.prems(2,7,8) by simp
    let "reaches _ _ (?Y, _)" = ?thesis
    have eqY: "?W4 = ?Y"
      using Cons.prems(1,2,3) True iss iss'
      by (intro world.equality)
         (simp_all add: afterChunk_def Let_def nth_append list_update_append1)
    have r2: "reaches g (?W3, CallBack ?cb (ArrayRef ?ap) # ?D)
                (?W4, finalCalls hq aq @ ProcessNextQueueTask q # rest)"
      using iss' by (intro reaches_step [OF s2]) simp
    from reaches_trans [OF r1 r2] show ?thesis
      unfolding eqY by (simp add: iss iss')
  qed
qed

lemma afterChunks_fields:
  assumes "q < length (heap w)" and "asyncTaskResultList (heap w ! q) = aq" and "aq < length (arrays w)"
    and "length iss = length cts"
  shows "length (heap (afterChunks g q cts iss w)) = length (heap w) + length cts
    \<and> (\<forall>i<length (heap w). heap (afterChunks g q cts iss w) ! i = heap w ! i)
    \<and> (\<forall>k<length cts.
          taskMode (heap (afterChunks g q cts iss w) ! (length (heap w) + k)) = Pool \<and>
          asyncTaskList (heap (afterChunks g q cts iss w) ! (length (heap w) + k))
             = map retrim (chunkOf (cts ! k)) \<and>
          asyncTaskResultList (heap (afterChunks g q cts iss w) ! (length (heap w) + k))
             = length (arrays w) + k \<and>
          finalCallback (heap (afterChunks g q cts iss w) ! (length (heap w) + k))
             = Some (ForwardTo (TaskCallback q (cts ! k) True)) \<and>
          isStarted (heap (afterChunks g q cts iss w) ! (length (heap w) + k)) \<and>
          isFinished (heap (afterChunks g q cts iss w) ! (length (heap w) + k)) \<and>
          arrays (afterChunks g q cts iss w) ! (length (arrays w) + k)
             = map Value (arrivalOrder (chunkOf (cts ! k)) (iss ! k)))
    \<and> length (arrays (afterChunks g q cts iss w)) = length (arrays w) + length cts
    \<and> arrays (afterChunks g q cts iss w) ! aq
         = arrays w ! aq @ map ArrayRef [length (arrays w)..<length (arrays w) + length cts]
    \<and> (\<forall>i<length (arrays w). i \<noteq> aq \<longrightarrow> arrays (afterChunks g q cts iss w) ! i = arrays w ! i)
    \<and> pending (afterChunks g q cts iss w) = pending w
    \<and> (\<exists>es. fired (afterChunks g q cts iss w) = fired w @ es \<and> (\<forall>e\<in>set es. length (heap w) \<le> fst e))
    \<and> (\<exists>inv. invoked (afterChunks g q cts iss w) = invoked w @ inv \<and>
               map snd (filter (\<lambda>e. fst e \<noteq> q) inv) = concat (map (\<lambda>ct. map retrim (chunkOf ct)) cts))"
  using assms
proof (induction cts arbitrary: w iss)
  case Nil
  then show ?case by simp
next
  case (Cons ct cts)
  from Cons.prems(4) obtain sch iss' where iss: "iss = sch # iss'" and len: "length iss' = length cts"
    by (cases iss) auto
  let ?A = "afterChunk g q ct sch w"
  note af = afterChunk_fields [OF Cons.prems(1,2,3), where g = g and ct = ct and sch = sch]
  have pA: "q < length (heap ?A)" "asyncTaskResultList (heap ?A ! q) = aq" "aq < length (arrays ?A)"
    using af(1,2,3) Cons.prems(1,2,3) by simp_all
  note ih = Cons.IH [OF pA len]
  let ?F = "afterChunks g q cts iss' ?A"
  have F: "afterChunks g q (ct # cts) iss w = ?F" by (simp add: iss)
  have hA: "heap ?A ! length (heap w) =
       \<lparr>taskMode = Pool, asyncTaskList = map retrim (chunkOf ct),
        asyncTaskResultList = length (arrays w),
        finalCallback = Some (ForwardTo (TaskCallback q ct True)),
        isStarted = True, isFinished = True, isDebug = debugOf ct,
        instanceID = (codeUnits ''AsyncTaskHelper::'') @ g (uuidCount w)\<rparr>"
    by (simp add: afterChunk_def Let_def)
  have firedA: "fired ?A = fired w @ [(length (heap w), ForwardTo (TaskCallback q ct True),
                     map Value (arrivalOrder (chunkOf ct) sch))]"
    by (simp add: afterChunk_def Let_def)
  have invA: "invoked ?A = invoked w @ (q, ct) # map (Pair (length (heap w))) (map retrim (chunkOf ct))"
    by (simp add: afterChunk_def Let_def)
  have c1: "length (heap ?F) = length (heap w) + length (ct # cts)"
    using ih af(1) by simp
  have c2: "\<forall>i<length (heap w). heap ?F ! i = heap w ! i"
    using ih af(1,2) by simp
  have c4: "length (arrays ?F) = length (arrays w) + length (ct # cts)"
    using ih af(3) by simp
  have c5: "arrays ?F ! aq
         = arrays w ! aq @ map ArrayRef [length (arrays w)..<length (arrays w) + length (ct # cts)]"
  proof -
    have "arrays ?F ! aq = arrays ?A ! aq @ map ArrayRef [length (arrays ?A)..<length (arrays ?A) + length cts]"
      using ih by blast
    moreover have "[length (arrays w)..<length (arrays w) + Suc (length cts)]
        = length (arrays w) # [Suc (length (arrays w))..<length (arrays w) + Suc (length cts)]"
      by (rule upt_conv_Cons) simp
    moreover have "length (arrays w) + Suc (length cts) = Suc (length (arrays w)) + length cts"
      by simp
    ultimately show ?thesis using af(3,4) by (simp only: list.size list.map append_assoc append_Cons append_Nil One_nat_def Nat.add_0_right add_Suc_right)
  qed
  have c6: "\<forall>i<length (arrays w). i \<noteq> aq \<longrightarrow> arrays ?F ! i = arrays w ! i"
    using ih af(3,5) by simp
  have c7: "pending ?F = pending w" using ih af(7) by simp
  have c3: "\<forall>k<length (ct # cts).
          taskMode (heap ?F ! (length (heap w) + k)) = Pool \<and>
          asyncTaskList (heap ?F ! (length (heap w) + k)) = map retrim (chunkOf ((ct # cts) ! k)) \<and>
          asyncTaskResultList (heap ?F ! (length (heap w) + k)) = length (arrays w) + k \<and>
          finalCallback (heap ?F ! (length (heap w) + k))
             = Some (ForwardTo (TaskCallback q ((ct # cts) ! k) True)) \<and>
          isStarted (heap ?F ! (length (heap w) + k)) \<and>
          isFinished (heap ?F ! (length (heap w) + k)) \<and>
          arrays ?F ! (length (arrays w) + k)
             = map Value (arrivalOrder (chunkOf ((ct # cts) ! k)) (iss ! k))"
  proof (intro allI impI)
    fix k assume k: "k < length (ct # cts)"
    show "taskMode (heap ?F ! (length (heap w) + k)) = Pool \<and>
          asyncTaskList (heap ?F ! (length (heap w) + k)) = map retrim (chunkOf ((ct # cts) ! k)) \<and>
          asyncTaskResultList (heap ?F ! (length (heap w) + k)) = length (arrays w) + k \<and>
          finalCallback (heap ?F ! (length (heap w) + k))
             = Some (ForwardTo (TaskCallback q ((ct # cts) ! k) True)) \<and>
          isStarted (heap ?F ! (length (heap w) + k)) \<and>
          isFinished (heap ?F ! (length (heap w) + k)) \<and>
          arrays ?F ! (length (arrays w) + k)
             = map Value (arrivalOrder (chunkOf ((ct # cts) ! k)) (iss ! k))"
    proof (cases k)
      case 0
      have h0: "heap ?F ! length (heap w) = heap ?A ! length (heap w)"
        using ih af(1) by simp
      have ne: "length (arrays w) \<noteq> aq" using Cons.prems(3) by simp
      have a0: "arrays ?F ! length (arrays w) = arrays ?A ! length (arrays w)"
        using ih af(3) ne by simp
      show ?thesis using 0 h0 hA a0 af(6) by (simp add: iss)
    next
      case (Suc j)
      with k have j: "j < length cts" by simp
      from ih j have
        "taskMode (heap ?F ! (length (heap ?A) + j)) = Pool \<and>
          asyncTaskList (heap ?F ! (length (heap ?A) + j)) = map retrim (chunkOf (cts ! j)) \<and>
          asyncTaskResultList (heap ?F ! (length (heap ?A) + j)) = length (arrays ?A) + j \<and>
          finalCallback (heap ?F ! (length (heap ?A) + j))
             = Some (ForwardTo (TaskCallback q (cts ! j) True)) \<and>
          isStarted (heap ?F ! (length (heap ?A) + j)) \<and>
          isFinished (heap ?F ! (length (heap ?A) + j)) \<and>
          arrays ?F ! (length (arrays ?A) + j)
             = map Value (arrivalOrder (chunkOf (cts ! j)) (iss' ! j))"
        by blast
      then show ?thesis using Suc af(1,3) by (simp add: iss)
    qed
  qed
  have c8: "\<exists>es. fired ?F = fired w @ es \<and> (\<forall>e\<in>set es. length (heap w) \<le> fst e)"
  proof -
    from ih obtain es where es: "fired ?F = fired ?A @ es" "\<forall>e\<in>set es. length (heap ?A) \<le> fst e"
      by blast
    let ?e0 = "(length (heap w), ForwardTo (TaskCallback q ct True),
                     map Value (arrivalOrder (chunkOf ct) sch))"
    have "fired ?F = fired w @ (?e0 # es)" using es(1) firedA by simp
    moreover have "\<forall>e\<in>set (?e0 # es). length (heap w) \<le> fst e" using es(2) af(1) by auto
    ultimately show ?thesis by blast
  qed
  have c9: "\<exists>inv. invoked ?F = invoked w @ inv \<and>
               map snd (filter (\<lambda>e. fst e \<noteq> q) inv)
                 = concat (map (\<lambda>ct. map retrim (chunkOf ct)) (ct # cts))"
  proof -
    from ih obtain inv where inv: "invoked ?F = invoked ?A @ inv"
      "map snd (filter (\<lambda>e. fst e \<noteq> q) inv) = concat (map (\<lambda>ct. map retrim (chunkOf ct)) cts)"
      by blast
    let ?i0 = "(q, ct) # map (Pair (length (heap w))) (map retrim (chunkOf ct))"
    have ne: "length (heap w) \<noteq> q" using Cons.prems(1) by simp
    have f0: "map snd (filter (\<lambda>e. fst e \<noteq> q) ?i0) = map retrim (chunkOf ct)"
      using ne by (simp add: filter_map comp_def)
    have "invoked ?F = invoked w @ (?i0 @ inv)" using inv(1) invA by simp
    moreover have "map snd (filter (\<lambda>e. fst e \<noteq> q) (?i0 @ inv))
                 = concat (map (\<lambda>ct. map retrim (chunkOf ct)) (ct # cts))"
      using f0 inv(2) by simp
    ultimately show ?thesis by blast
  qed
  show ?case unfolding F using c1 c2 c3 c4 c5 c6 c7 c8 c9 by blast
qed

lemma flat_refs:
  "la + m \<le> length arrs \<Longrightarrow>
     flat arrs (map ArrayRef [la..<la + m]) = concat (map (\<lambda>k. arrs ! (la + k)) [0..<m])"
proof (induction m)
  case 0
  then show ?case by (simp add: flat_def)
next
  case (Suc m)
  then have "flat arrs (map ArrayRef [la..<la + m]) = concat (map (\<lambda>k. arrs ! (la + k)) [0..<m])"
    by simp
  with Suc.prems show ?case by (simp add: flat_def)
qed

lemma step_PoolCall_big:
  assumes "this < length (heap w)" and "\<not> isStarted (heap w ! this)"
    and "asyncPoolChunkSize < length (asyncTaskList (heap w ! this))"
  shows "step g (PoolCall this f) w =
     (snd (construct g
             \<lparr>debug = None, taskMode_opt = None,
              asyncTaskList_opt = Some (chunkCandidates (isDebug (heap w ! this))
                   (chunksOf asyncPoolChunkSize (asyncTaskList (heap w ! this)))),
              finalCallback_opt = None\<rparr>
             (w\<lparr>heap := (heap w)[this := (heap w ! this)
                \<lparr>finalCallback := (case f of Some h \<Rightarrow> Some h | None \<Rightarrow> finalCallback (heap w ! this)),
                 taskMode := Pool, isStarted := True\<rparr>]\<rparr>)),
      [QueueCall (length (heap w)) (Some (FlattenInto this))])"
proof -
  have sp: "split (Some (int asyncPoolChunkSize)) (asyncTaskList (heap w ! this))
             = Some (chunksOf asyncPoolChunkSize (asyncTaskList (heap w ! this)))"
    by (simp add: split_chunksOf asyncPoolChunkSize_def)
  have ne: "asyncTaskList (heap w ! this) \<noteq> []" using assms(3) by auto
  show ?thesis
    using assms ne
    by (simp add: alive_def pool_def start_def Let_def sp chunkCandidates_def construct_eq
             del: split_chunksOf)
qed

lemma step_CallFinal_flatten:
  assumes "this < length (heap w)" and "a < length (arrays w)"
    and "\<not> isFinished (heap w ! this)" and "finalCallback (heap w ! this) = h"
  shows "step g (CallFinal (FlattenInto this) a) w =
     (w\<lparr>arrays := arrays w @ [flat (arrays w) (arrays w ! a)],
        heap := (heap w)[this := (heap w ! this)
                  \<lparr>asyncTaskResultList := length (arrays w), isFinished := True\<rparr>],
        fired := fired w @ firedEntry this h (flat (arrays w) (arrays w ! a))\<rparr>,
      finalCalls h (length (arrays w)))"
  using assms
  by (simp add: alive_def callFinal_def finished_def Let_def firedEntry_def finalCalls_def
           split: option.splits)

lemma chunksOf_members:
  assumes "0 < n" and "ch \<in> set (chunksOf n xs)"
  shows "ch \<noteq> []" and "length ch \<le> n" and "set ch \<subseteq> set xs"
proof -
  from assms(2) obtain k where k: "k < length (chunksOf n xs)" "chunksOf n xs ! k = ch"
    by (auto simp: in_set_conv_nth)
  from chunksOf_lengths [OF assms(1) k(1)] k(2) show "ch \<noteq> []" "length ch \<le> n" by auto
  have "set ch \<subseteq> set (concat (chunksOf n xs))" using assms(2) by auto
  then show "set ch \<subseteq> set xs" by (simp add: concat_chunksOf [OF assms(1)])
qed

lemma chunkTask_constructor:
  assumes "\<forall>ch\<in>set chunks. ch \<noteq> [] \<and> length ch \<le> asyncPoolChunkSize \<and> list_all callsBackOnce ch"
  shows "list_all chunkTask (constructorTasks g n (chunkCandidates d chunks))
       \<and> map chunkOf (constructorTasks g n (chunkCandidates d chunks)) = chunks
       \<and> map debugOf (constructorTasks g n (chunkCandidates d chunks)) = map (\<lambda>_. d) chunks"
  using assms
proof (induction chunks arbitrary: n)
  case Nil
  then show ?case by (simp add: chunkCandidates_def)
next
  case (Cons ch chunks)
  have cc: "chunkCandidates d (ch # chunks) = TaskRecord (ChunkFunction d ch) NoName # chunkCandidates d chunks"
    by (simp add: chunkCandidates_def)
  let ?ct = "nameTask 0 (wrapCandidate (g n) (TaskRecord (ChunkFunction d ch) NoName))"
  have f: "asyncTaskFunction ?ct = ChunkFunction d ch"
    by (simp add: nameTask_def wrapCandidate_def)
  then have co: "chunkOf ?ct = ch" "debugOf ?ct = d" by (simp_all add: chunkOf_def debugOf_def)
  have "chunkTask ?ct" using Cons.prems f co by (simp add: chunkTask_def)
  moreover from Cons.prems have "\<forall>ch\<in>set chunks. ch \<noteq> [] \<and> length ch \<le> asyncPoolChunkSize \<and> list_all callsBackOnce ch"
    by simp
  note Cons.IH [OF this, of "Suc n"]
  ultimately show ?case using co by (simp add: cc)
qed

lemma map_index_zip:
  "length ys = length xs \<Longrightarrow>
     map (\<lambda>k. f (xs ! k) (ys ! k)) [0..<length xs] = map (\<lambda>(x, y). f x y) (zip xs ys)"
  by (rule nth_equalityI) simp_all

lemma filter_firedEntry [simp]: "filter (\<lambda>e. fst e = this) (firedEntry this h rs) = firedEntry this h rs"
  by (cases h) (simp_all add: firedEntry_def)

lemma filter_firedEntry_other [simp]:
  "q \<noteq> this \<Longrightarrow> filter (\<lambda>e. fst e = this) (firedEntry q h rs) = []"
  by (cases h) (simp_all add: firedEntry_def)

lemma upt_shift: "[a..<a + n] = map (\<lambda>k. a + k) [0..<n]"
  by (induction n) simp_all

text \<open>
  Claim C3. A coordinator constructed with \<open>N > 30\<close> tasks, each of which calls back exactly
  once (at once or later), is run by \<open>pool\<close>. The registry is split into contiguous chunks of
  30 tasks, the last one possibly smaller, whose concatenation is the registry. A second
  coordinator is constructed in queue mode, with one synthetic task per chunk, in chunk
  order, and with the flattening handler; each synthetic task constructs a child coordinator
  over the tasks of its chunk and runs it in pool mode. For every schedule that delivers,
  chunk after chunk, each deferred callback of the chunk exactly once, the run ends: every
  child is finished with the results of its chunk in arrival order, the queue coordinator
  holds the children's result arrays in chunk order, and the result list of the original
  coordinator is the concatenation of the children's result arrays in chunk order. The
  original coordinator is finished, its handler has been invoked once more, with that
  list, and every task of the registry has been run exactly once, in registry order.
\<close>

theorem pool_beyond_chunk_size:
  fixes w :: "'r world"
  assumes ts: "ts = constructorTasks g (Suc (uuidCount w)) (optionTasks options)"
    and addr: "this = length (heap w)"
    and h: "h = (case f of Some x \<Rightarrow> Some x | None \<Rightarrow> finalCallback_opt options)"
    and d: "d = (case debug options of Some x \<Rightarrow> x | None \<Rightarrow> False)"
    and big: "30 < length ts"
    and once: "\<forall>t\<in>set ts. callsBackOnce t"
    and caller: "callerHandler h"
    and pend: "pending w = []"
    and chunks: "chunks = chunksOf 30 ts"
    and sched: "list_all2 completeFor chunks sched"
  shows "\<exists>n w'. run g n w (New options # PoolCall this f # map Deliver (concat sched)) = Some w' \<and>
     split (Some 30) ts = Some chunks \<and> concat chunks = ts \<and>
     (\<forall>k<length chunks.
        (Suc k < length chunks \<longrightarrow> length (chunks ! k) = 30) \<and>
        1 \<le> length (chunks ! k) \<and> length (chunks ! k) \<le> 30) \<and>
     taskMode (heap w' ! Suc this) = Queue \<and>
     map asyncTaskFunction (asyncTaskList (heap w' ! Suc this)) = map (ChunkFunction d) chunks \<and>
     finalCallback (heap w' ! Suc this) = Some (FlattenInto this) \<and>
     (\<forall>k<length chunks.
        taskMode (heap w' ! (this + 2 + k)) = Pool \<and>
        asyncTaskList (heap w' ! (this + 2 + k)) = map retrim (chunks ! k) \<and>
        isFinished (heap w' ! (this + 2 + k)) \<and>
        results w' (this + 2 + k) = map Value (arrivalOrder (chunks ! k) (sched ! k))) \<and>
     results w' (Suc this)
       = map (\<lambda>k. ArrayRef (asyncTaskResultList (heap w' ! (this + 2 + k)))) [0..<length chunks] \<and>
     results w' this = concat (map (\<lambda>k. results w' (this + 2 + k)) [0..<length chunks]) \<and>
     results w' this = map Value (concat (map (\<lambda>(c, s). arrivalOrder c s) (zip chunks sched))) \<and>
     isFinished (heap w' ! this) \<and> pending w' = [] \<and>
     filter (\<lambda>e. fst e = this) (fired w')
       = filter (\<lambda>e. fst e = this) (fired w) @ firedEntry this h (results w' this) \<and>
     (\<exists>inv. invoked w' = invoked w @ inv \<and>
            map snd (filter (\<lambda>e. fst e \<noteq> Suc this) inv) = map retrim ts)"
proof -
  let ?a = "length (arrays w)"
  let ?q = "Suc this"
  let ?aq = "Suc ?a"
  let ?hq = "Some (FlattenInto this)"
  have sz: "asyncPoolChunkSize = 30" by (simp add: asyncPoolChunkSize_def)
  have pos: "0 < (30::nat)" by simp
  have cc: "concat chunks = ts" unfolding chunks by (rule concat_chunksOf [OF pos])
  have sp: "split (Some 30) ts = Some chunks" unfolding chunks by (simp add: split_chunksOf)
  have tne: "ts \<noteq> []" using big by auto
  have cne: "chunks \<noteq> []" using cc tne by auto
  have lsched: "length sched = length chunks" using sched by (simp add: list_all2_lengthD)
  (* the constructor *)
  obtain w0 where c0: "construct g options w = (this, w0)"
    using addr by (simp add: construct_eq)
  note cf0 = construct_fields [OF c0]
  have s0: "step g (New options) w = (w0, [])" using c0 by simp
  have alive0: "this < length (heap w0)" using cf0(1,2) by simp
  have tsk0: "asyncTaskList (heap w0 ! this) = ts" using cf0(5) ts by simp
  have h0: "h = (case f of Some x \<Rightarrow> Some x | None \<Rightarrow> finalCallback (heap w0 ! this))"
    using h cf0(8) by (simp split: option.splits)
  have d0: "isDebug (heap w0 ! this) = d" using cf0(15) d by simp
  (* pool: the instance is started and the sequencing coordinator constructed *)
  define w1 where "w1 = w0\<lparr>heap := (heap w0)[this := (heap w0 ! this)
                \<lparr>finalCallback := h, taskMode := Pool, isStarted := True\<rparr>]\<rparr>"
  define optsQ where "optsQ = \<lparr>debug = None, taskMode_opt = None,
              asyncTaskList_opt = Some (chunkCandidates d chunks),
              finalCallback_opt = (None :: 'r finalCallback option)\<rparr>"
  have w1: "length (heap w1) = Suc this" "heap w1 ! this = (heap w0 ! this)
                \<lparr>finalCallback := h, taskMode := Pool, isStarted := True\<rparr>"
     "arrays w1 = arrays w0" "pending w1 = []" "fired w1 = fired w" "invoked w1 = invoked w"
     "uuidCount w1 = uuidCount w0"
    using alive0 cf0(1,2,10,11,12) pend addr by (simp_all add: w1_def)
  obtain w2 where cq: "construct g optsQ w1 = (?q, w2)"
    using w1(1) by (simp add: construct_eq)
  note cfq = construct_fields [OF cq]
  have s1: "step g (PoolCall this f) w0 = (w2, [QueueCall ?q ?hq])"
    using step_PoolCall_big [of this w0 g f] alive0 cf0(2,6) tsk0 big cq d0 h0 chunks cf0(1)
    by (simp add: sz w1_def optsQ_def)
  define cts where "cts = constructorTasks g (Suc (uuidCount w1)) (chunkCandidates d chunks)"
  have otq: "optionTasks optsQ = chunkCandidates d chunks" by (simp add: optsQ_def optionTasks_def)
  have tskq: "asyncTaskList (heap w2 ! ?q) = cts" using cfq(5) by (simp add: otq cts_def)
  have lcts: "length cts = length chunks" by (simp add: cts_def chunkCandidates_def)
  have ctsne: "cts \<noteq> []" using lcts cne by auto
  have chunkprops: "\<forall>ch\<in>set chunks. ch \<noteq> [] \<and> length ch \<le> asyncPoolChunkSize \<and> list_all callsBackOnce ch"
    using chunksOf_members [OF pos, of _ ts] once unfolding chunks sz
    by (simp add: list_all_iff) blast
  note ctk = chunkTask_constructor [OF chunkprops, of g "Suc (uuidCount w1)" d, folded cts_def]
  have chunkOf_nth: "chunkOf (cts ! k) = chunks ! k" if "k < length chunks" for k
    using ctk that lcts by (metis nth_map)
  (* queue on the sequencing coordinator *)
  define w3 where "w3 = w2\<lparr>heap := (heap w2)[?q := (heap w2 ! ?q)
                \<lparr>finalCallback := ?hq, taskMode := Queue, isStarted := True\<rparr>]\<rparr>"
  have aliveq: "?q < length (heap w2)" using cfq(2) w1(1) by simp
  have s2: "step g (QueueCall ?q ?hq) w2 = (w3, [ProcessNextQueueTask ?q])"
    using step_QueueCall_fresh [of ?q w2 g ?hq] aliveq cfq(6) tskq ctsne by (simp add: w3_def)
  have la2: "length (arrays w2) = ?a + 2" using cfq(3) w1(3) cf0(3) by simp
  have w3: "length (heap w3) = this + 2" "?q < length (heap w3)"
     "asyncTaskResultList (heap w3 ! ?q) = ?aq" "?aq < length (arrays w3)"
     "asyncTaskList (heap w3 ! ?q) = cts" "arrays w3 ! ?aq = []"
     "\<not> isFinished (heap w3 ! ?q)" "finalCallback (heap w3 ! ?q) = ?hq"
     "taskMode (heap w3 ! ?q) = Queue"
     "pending w3 = []" "fired w3 = fired w" "invoked w3 = invoked w"
     "length (arrays w3) = ?a + 2"
    using aliveq cfq(2,4,7,9,10,11,12) w1 cf0(3) tskq la2 by (simp_all add: w3_def)
  have w3this: "heap w3 ! this = heap w1 ! this"
    using cfq(13) [of this] w1(1) by (simp add: w3_def)
  (* the chunks, one after the other *)
  define W0 where "W0 = afterChunks g ?q cts sched w3"
  define W5 where "W5 = W0\<lparr>heap := (heap W0)[?q := (heap W0 ! ?q)\<lparr>isFinished := True\<rparr>],
         fired := fired W0 @ firedEntry ?q ?hq (arrays W0 ! ?aq)\<rparr>"
  have sch2: "list_all2 (\<lambda>ct is. completeFor (chunkOf ct) is) cts sched"
  proof (rule list_all2_all_nthI)
    show "length cts = length sched" using lcts lsched by simp
    fix k assume "k < length cts"
    then have k: "k < length chunks" using lcts by simp
    from list_all2_nthD [OF sched k] chunkOf_nth [OF k]
    show "completeFor (chunkOf (cts ! k)) (sched ! k)" by simp
  qed
  have r3: "reaches g (w3, ProcessNextQueueTask ?q # map Deliver (concat sched) @ [])
              (W5, finalCalls ?hq ?aq @ ProcessNextQueueTask ?q # [])"
    unfolding W5_def W0_def
    using w3 ctsne ctk sch2
    by (intro sequencer_drive [where ?done = "[]"]) simp_all
  note afc = afterChunks_fields [OF w3(2,3,4), of sched cts g, folded W0_def, unfolded w3(1,13)]
  have lsc: "length sched = length cts" using lcts lsched by simp
  note af = afc [OF lsc]
  have W0len: "length (heap W0) = this + 2 + length cts" "length (arrays W0) = ?a + 2 + length cts"
    using af by simp_all
  have W0old: "heap W0 ! this = heap w1 ! this" "heap W0 ! ?q = heap w3 ! ?q"
    using af w3this by simp_all
  have W0aq: "arrays W0 ! ?aq = map ArrayRef [?a + 2..<?a + 2 + length cts]"
    using af w3(6) by simp
  have W0child: "taskMode (heap W0 ! (this + 2 + k)) = Pool"
      "asyncTaskList (heap W0 ! (this + 2 + k)) = map retrim (chunks ! k)"
      "asyncTaskResultList (heap W0 ! (this + 2 + k)) = ?a + 2 + k"
      "isFinished (heap W0 ! (this + 2 + k))"
      "arrays W0 ! (?a + 2 + k) = map Value (arrivalOrder (chunks ! k) (sched ! k))"
    if "k < length chunks" for k
    using af that lcts chunkOf_nth [OF that] by simp_all
  (* the flattening handler *)
  define F where "F = flat (arrays W5) (arrays W5 ! ?aq)"
  define W7 where "W7 = W5\<lparr>arrays := arrays W5 @ [F],
        heap := (heap W5)[this := (heap W5 ! this)
                  \<lparr>asyncTaskResultList := length (arrays W5), isFinished := True\<rparr>],
        fired := fired W5 @ firedEntry this h F\<rparr>"
  have W5: "this < length (heap W5)" "?aq < length (arrays W5)" "arrays W5 = arrays W0"
     "heap W5 ! this = heap w1 ! this" "length (heap W5) = length (heap W0)"
     "pending W5 = []" "invoked W5 = invoked W0"
    using W0len W0old af w3(10) by (simp_all add: W5_def)
  have s4: "step g (CallFinal (FlattenInto this) ?aq) W5 = (W7, finalCalls h (length (arrays W5)))"
    using step_CallFinal_flatten [of this W5 ?aq h g] W5(1,2,4) w1(2) cf0(7)
    by (simp add: W7_def F_def)
  have fcq: "finalCalls ?hq ?aq = [CallFinal (FlattenInto this) ?aq]" by (simp add: finalCalls_def)
  have W7q: "heap W7 ! ?q = (heap w3 ! ?q)\<lparr>isFinished := True\<rparr>"
    using W0len W0old by (simp add: W7_def W5_def)
  have W7aq: "arrays W7 ! ?aq = arrays W0 ! ?aq"
    using W5(2,3) by (simp add: W7_def nth_append)
  have q7a: "asyncTaskResultList (heap W7 ! ?q) = ?aq" using W7q w3(3) by simp
  have q7t: "asyncTaskList (heap W7 ! ?q) = cts" using W7q w3(5) by simp
  have q7n: "length (arrays W7 ! ?aq) = length cts"
    unfolding W7aq W0aq by (simp only: length_map length_upt)
  have s6: "step g (ProcessNextQueueTask ?q) W7 = (W7, [])"
    by (rule step_ProcessNext_done [OF q7a]) (simp only: q7t q7n order_refl)
  have r4: "reaches g (W5, finalCalls ?hq ?aq @ ProcessNextQueueTask ?q # []) (W7, [])"
    unfolding fcq append_Cons append_Nil
    by (rule reaches_step [OF s4],
        rule reaches_trans [OF reaches_finalCalls_caller [OF caller]],
        rule reaches_step [OF s6], simp)
  have "reaches g (w, New options # PoolCall this f # map Deliver (concat sched)) (W7, [])"
    by (rule reaches_step [OF s0], simp, rule reaches_step [OF s1], simp,
        rule reaches_step [OF s2], simp, rule reaches_trans [OF r3 [simplified]],
        use r4 in simp)
  from reaches_run [OF this] obtain n
    where run: "run g n w (New options # PoolCall this f # map Deliver (concat sched)) = Some W7" ..
  (* what the final store holds *)
  have Fval: "F = concat (map (\<lambda>k. arrays W0 ! (?a + 2 + k)) [0..<length cts])"
    unfolding F_def W5(3) W0aq using W0len(2) by (intro flat_refs) simp
  have lW5: "length (arrays W5) = ?a + 2 + length cts" using W5(3) W0len(2) by simp
  have res_this: "results W7 this = F"
    using W5(1) by (simp add: results_def W7_def)
  have child7: "heap W7 ! (this + 2 + k) = heap W0 ! (this + 2 + k)" if "k < length chunks" for k
    using that lcts W0len by (simp add: W7_def W5_def)
  have arr7: "arrays W7 ! (?a + 2 + k) = arrays W0 ! (?a + 2 + k)" if "k < length chunks" for k
    using that lcts W0len W5(3) by (simp add: W7_def nth_append)
  have res_child: "results W7 (this + 2 + k) = map Value (arrivalOrder (chunks ! k) (sched ! k))"
    if "k < length chunks" for k
    using child7 [OF that] arr7 [OF that] W0child [OF that] by (simp add: results_def)
  have p0: "\<forall>k<length chunks.
        (Suc k < length chunks \<longrightarrow> length (chunks ! k) = 30) \<and>
        1 \<le> length (chunks ! k) \<and> length (chunks ! k) \<le> 30"
    unfolding chunks using chunksOf_lengths [OF pos, of _ ts] by blast
  have p1: "taskMode (heap W7 ! ?q) = Queue" using W7q w3(9) by simp
  have p2: "map asyncTaskFunction (asyncTaskList (heap W7 ! ?q)) = map (ChunkFunction d) chunks"
    using W7q w3(5) by (simp add: cts_def constructorTasks_chunks)
  have p3: "finalCallback (heap W7 ! ?q) = ?hq" using W7q w3(8) by simp
  have p4: "\<forall>k<length chunks.
        taskMode (heap W7 ! (this + 2 + k)) = Pool \<and>
        asyncTaskList (heap W7 ! (this + 2 + k)) = map retrim (chunks ! k) \<and>
        isFinished (heap W7 ! (this + 2 + k)) \<and>
        results W7 (this + 2 + k) = map Value (arrivalOrder (chunks ! k) (sched ! k))"
    using child7 W0child res_child by simp
  have p5: "results W7 ?q
       = map (\<lambda>k. ArrayRef (asyncTaskResultList (heap W7 ! (this + 2 + k)))) [0..<length chunks]"
  proof -
    have "results W7 ?q = map ArrayRef [?a + 2..<?a + 2 + length cts]"
      using W7q W7aq W0aq w3(3) by (simp add: results_def)
    also have "\<dots> = map (\<lambda>k. ArrayRef (?a + 2 + k)) [0..<length chunks]"
      unfolding lcts by (simp only: upt_shift map_map comp_def)
    also have "\<dots> = map (\<lambda>k. ArrayRef (asyncTaskResultList (heap W7 ! (this + 2 + k)))) [0..<length chunks]"
      using child7 W0child(3) by simp
    finally show ?thesis .
  qed
  have m6: "map (\<lambda>k. arrays W0 ! (?a + 2 + k)) [0..<length chunks]
              = map (\<lambda>k. results W7 (this + 2 + k)) [0..<length chunks]"
  proof (rule map_cong [OF refl])
    fix k assume "k \<in> set [0..<length chunks]"
    then have k: "k < length chunks" by simp
    show "arrays W0 ! (?a + 2 + k) = results W7 (this + 2 + k)"
      unfolding res_child [OF k] W0child(5) [OF k] ..
  qed
  have p6: "results W7 this = concat (map (\<lambda>k. results W7 (this + 2 + k)) [0..<length chunks])"
    unfolding res_this Fval lcts m6 ..
  have p7: "results W7 this = map Value (concat (map (\<lambda>(c, s). arrivalOrder c s) (zip chunks sched)))"
  proof -
    have "map (\<lambda>k. results W7 (this + 2 + k)) [0..<length chunks]
            = map (\<lambda>k. map Value (arrivalOrder (chunks ! k) (sched ! k))) [0..<length chunks]"
    proof (rule map_cong [OF refl])
      fix k assume "k \<in> set [0..<length chunks]"
      then have k: "k < length chunks" by simp
      show "results W7 (this + 2 + k) = map Value (arrivalOrder (chunks ! k) (sched ! k))"
        by (rule res_child [OF k])
    qed
    then have "results W7 this
            = concat (map (\<lambda>k. map Value (arrivalOrder (chunks ! k) (sched ! k))) [0..<length chunks])"
      unfolding p6 by (simp only:)
    also have "\<dots> = concat (map (map Value)
                   (map (\<lambda>k. arrivalOrder (chunks ! k) (sched ! k)) [0..<length chunks]))"
      by (simp add: comp_def)
    also have "map (\<lambda>k. arrivalOrder (chunks ! k) (sched ! k)) [0..<length chunks]
                = map (\<lambda>(c, s). arrivalOrder c s) (zip chunks sched)"
      using lsched by (rule map_index_zip)
    finally show ?thesis by (simp add: map_concat)
  qed
  have p8: "isFinished (heap W7 ! this)" using W5(1) by (simp add: W7_def)
  have p9: "pending W7 = []" using W5(6) by (simp add: W7_def)
  have p10: "filter (\<lambda>e. fst e = this) (fired W7)
       = filter (\<lambda>e. fst e = this) (fired w) @ firedEntry this h (results W7 this)"
  proof -
    from af obtain es where es: "fired W0 = fired w3 @ es" "\<forall>e\<in>set es. this + 2 \<le> fst e"
      by blast
    then have "filter (\<lambda>e. fst e = this) es = []" by (auto simp: filter_empty_conv)
    then have "filter (\<lambda>e. fst e = this) (fired W0) = filter (\<lambda>e. fst e = this) (fired w)"
      using es(1) w3(11) by simp
    then show ?thesis unfolding res_this by (simp add: W7_def W5_def)
  qed
  have p11: "\<exists>inv. invoked W7 = invoked w @ inv \<and>
            map snd (filter (\<lambda>e. fst e \<noteq> ?q) inv) = map retrim ts"
  proof -
    from af obtain inv where inv: "invoked W0 = invoked w3 @ inv"
      "map snd (filter (\<lambda>e. fst e \<noteq> ?q) inv) = concat (map (\<lambda>ct. map retrim (chunkOf ct)) cts)"
      by blast
    have "concat (map (\<lambda>ct. map retrim (chunkOf ct)) cts) = concat (map (map retrim) (map chunkOf cts))"
      by (simp add: comp_def)
    also have "\<dots> = map retrim (concat chunks)" using ctk by (simp add: map_concat)
    finally have "map snd (filter (\<lambda>e. fst e \<noteq> ?q) inv) = map retrim ts"
      using inv(2) cc by simp
    moreover have "invoked W7 = invoked w @ inv" using inv(1) w3(12) W5(7) by (simp add: W7_def)
    ultimately show ?thesis by blast
  qed
  show ?thesis
    using run sp cc p0 p1 p2 p3 p4 p5 p6 p7 p8 p9 p10 p11
    by (intro exI [of _ n] exI [of _ W7]) blast
qed

lemma syncTask_tasks:
  "map nowValues (constructorTasks g n (map syncTask xs)) = map (\<lambda>x. [x]) xs
   \<and> map laterValues (constructorTasks g n (map syncTask xs)) = map (\<lambda>x. []) xs
   \<and> list_all callsBackOnce (constructorTasks g n (map syncTask xs))"
  by (induction xs arbitrary: n)
     (simp_all add: syncTask_def nameTask_def wrapCandidate_def nowValues_def laterValues_def
        callsBackOnce_def)

lemma concat_singletons: "concat (map (\<lambda>x. [x]) xs) = xs"
  by (induction xs) simp_all

lemma concat_empties: "concat (map (\<lambda>x. []) xs) = []"
  by (induction xs) simp_all

lemma chunksOf_65:
  assumes "length xs = 65"
  shows "chunksOf 30 xs = [take 30 xs, take 30 (drop 30 xs), drop 60 xs]"
proof -
  have 1: "chunksOf 30 xs = take 30 xs # chunksOf 30 (drop 30 xs)"
    using assms by (intro chunksOf_step) auto
  have 2: "chunksOf 30 (drop 30 xs) = take 30 (drop 30 xs) # chunksOf 30 (drop 30 (drop 30 xs))"
    using assms by (intro chunksOf_step) auto
  have 3: "chunksOf 30 (drop 60 xs) = take 30 (drop 60 xs) # chunksOf 30 (drop 30 (drop 60 xs))"
    using assms by (intro chunksOf_step) auto
  have 4: "take 30 (drop 60 xs) = drop 60 xs" "drop 30 (drop 60 xs) = []"
    using assms by simp_all
  show ?thesis unfolding 1 2 using 3 4 by simp
qed

lemma laterValues_sub:
  assumes "map laterValues ts = map (\<lambda>x. []) xs"
  shows "concat (map laterValues (take n ts)) = []"
    and "concat (map laterValues (drop n ts)) = []"
    and "concat (map laterValues (take n (drop m ts))) = []"
proof -
  have a: "\<forall>t\<in>set ts. laterValues t = []"
  proof
    fix t assume "t \<in> set ts"
    then have "laterValues t \<in> set (map laterValues ts)" by simp
    then show "laterValues t = []" unfolding assms by auto
  qed
  have "set (take n ts) \<subseteq> set ts" "set (drop n ts) \<subseteq> set ts"
    by (auto dest: in_set_takeD in_set_dropD)
  with a show "concat (map laterValues (take n ts)) = []"
    "concat (map laterValues (drop n ts)) = []"
    by auto
  have "set (take n (drop m ts)) \<subseteq> set ts"
    by (auto dest: in_set_takeD in_set_dropD)
  with a show "concat (map laterValues (take n (drop m ts))) = []"
    by auto
qed

lemma arrivalOrder_Nil: "arrivalOrder ch [] = concat (map nowValues ch)"
  by (simp add: arrivalOrder_def)

theorem pool_beyond_chunk_size_witness:
  "30 < length (constructorTasks exampleUUID (Suc (uuidCount (emptyWorld :: nat world)))
                  (optionTasks (exampleOptions sixtyFiveTasks)))
   \<and> list_all callsBackOnce (constructorTasks exampleUUID (Suc (uuidCount (emptyWorld :: nat world)))
                  (optionTasks (exampleOptions sixtyFiveTasks)))
   \<and> callerHandler (Some (UserCallback 1 :: nat finalCallback))
   \<and> list_all2 completeFor (chunksOf 30 (constructorTasks exampleUUID
          (Suc (uuidCount (emptyWorld :: nat world))) (optionTasks (exampleOptions sixtyFiveTasks))))
         [[], [], []]
   \<and> map length (chunksOf 30 (constructorTasks exampleUUID
          (Suc (uuidCount (emptyWorld :: nat world))) (optionTasks (exampleOptions sixtyFiveTasks))))
         = [30, 30, 5]
   \<and> (\<exists>n w'. run exampleUUID n emptyWorld
          (New (exampleOptions sixtyFiveTasks) # PoolCall 0 (Some (UserCallback 1))
             # map Deliver (concat [[], [], []])) = Some w'
        \<and> results w' 0 = map Value [0..<65]
        \<and> isFinished (heap w' ! 0)
        \<and> taskMode (heap w' ! 1) = Queue
        \<and> filter (\<lambda>e. fst e = 0) (fired w') = [(0, UserCallback 1, map Value [0..<65])])"
proof -
  define ts where "ts = constructorTasks exampleUUID (Suc (uuidCount (emptyWorld :: nat world)))
                  (optionTasks (exampleOptions sixtyFiveTasks))"
  have ts': "ts = constructorTasks exampleUUID (Suc 0) (map syncTask [0..<65])"
    by (simp add: ts_def emptyWorld_def optionTasks_def exampleOptions_def sixtyFiveTasks_def)
  note st = syncTask_tasks [of exampleUUID "Suc 0" "[0..<65]", folded ts']
  have len: "length ts = 65" unfolding ts' by (simp only: length_constructorTasks length_map length_upt)
  have big: "30 < length ts" using len by simp
  have once: "\<forall>t\<in>set ts. callsBackOnce t" using st by (simp add: list_all_iff)
  have nv: "concat (map nowValues ts) = [0..<65]"
    using st by (simp only: concat_singletons)
  note lv = laterValues_sub [of ts "[0..<65]"]
  have lvm: "map laterValues ts = map (\<lambda>x. []) [0..<65]" using st by blast
  have ck: "chunksOf 30 ts = [take 30 ts, take 30 (drop 30 ts), drop 60 ts]"
    by (rule chunksOf_65 [OF len])
  have sched: "list_all2 completeFor (chunksOf 30 ts) [[], [], []]"
    unfolding ck by (simp add: completeFor_def lv [OF lvm])
  have lens: "map length (chunksOf 30 ts) = [30, 30, 5]"
    unfolding ck using len by simp
  have h6: "callerHandler (case Some (UserCallback 1 :: nat finalCallback) of Some x \<Rightarrow> Some x
                           | None \<Rightarrow> finalCallback_opt (exampleOptions sixtyFiveTasks))"
    by (simp add: callerHandler_def)
  have h7: "pending (emptyWorld :: nat world) = []" by (simp add: emptyWorld_def)
  have l0: "length (heap (emptyWorld :: nat world)) = 0" by (simp add: emptyWorld_def)
  have f0: "fired (emptyWorld :: nat world) = []" by (simp add: emptyWorld_def)
  have split3: "ts = take 30 ts @ take 30 (drop 30 ts) @ drop 60 ts"
  proof -
    have "drop 60 ts = drop 30 (drop 30 ts)" by simp
    then show ?thesis by (simp only: append_take_drop_id)
  qed
  have all: "concat (map (\<lambda>(c, s). arrivalOrder c s) (zip (chunksOf 30 ts) [[], [], []])) = [0..<65]"
  proof -
    have "concat (map (\<lambda>(c, s). arrivalOrder c s) (zip (chunksOf 30 ts) [[], [], []]))
          = concat (map nowValues (take 30 ts @ take 30 (drop 30 ts) @ drop 60 ts))"
      unfolding ck by (simp add: arrivalOrder_Nil)
    then show ?thesis using split3 nv by simp
  qed
  from pool_beyond_chunk_size [OF ts_def refl refl refl big once h6 h7 refl sched]
  obtain n w' where r:
    "run exampleUUID n emptyWorld
       (New (exampleOptions sixtyFiveTasks) # PoolCall (length (heap (emptyWorld :: nat world)))
          (Some (UserCallback 1)) # map Deliver (concat [[], [], []])) = Some w'"
    "taskMode (heap w' ! Suc (length (heap (emptyWorld :: nat world)))) = Queue"
    "results w' (length (heap (emptyWorld :: nat world)))
       = map Value (concat (map (\<lambda>(c, s). arrivalOrder c s) (zip (chunksOf 30 ts) [[], [], []])))"
    "isFinished (heap w' ! length (heap (emptyWorld :: nat world)))"
    "filter (\<lambda>e. fst e = length (heap (emptyWorld :: nat world))) (fired w')
       = filter (\<lambda>e. fst e = length (heap (emptyWorld :: nat world))) (fired (emptyWorld :: nat world))
         @ firedEntry (length (heap (emptyWorld :: nat world)))
             (case Some (UserCallback 1) of Some x \<Rightarrow> Some x
              | None \<Rightarrow> finalCallback_opt (exampleOptions sixtyFiveTasks))
             (results w' (length (heap (emptyWorld :: nat world))))"
    by blast
  have res: "results w' 0 = map Value [0..<65]" using r(3) unfolding l0 all .
  have "run exampleUUID n emptyWorld
          (New (exampleOptions sixtyFiveTasks) # PoolCall 0 (Some (UserCallback 1))
             # map Deliver (concat [[], [], []])) = Some w'"
    using r(1) unfolding l0 .
  moreover have "isFinished (heap w' ! 0)" using r(4) unfolding l0 .
  moreover have "taskMode (heap w' ! 1) = Queue" using r(2) unfolding l0 by simp
  moreover have "filter (\<lambda>e. fst e = 0) (fired w') = [(0, UserCallback 1, map Value [0..<65])]"
    using r(5) unfolding l0 f0 res by (simp add: firedEntry_def)
  ultimately have ex: "\<exists>n w'. run exampleUUID n emptyWorld
          (New (exampleOptions sixtyFiveTasks) # PoolCall 0 (Some (UserCallback 1))
             # map Deliver (concat [[], [], []])) = Some w'
        \<and> results w' 0 = map Value [0..<65]
        \<and> isFinished (heap w' ! 0)
        \<and> taskMode (heap w' ! 1) = Queue
        \<and> filter (\<lambda>e. fst e = 0) (fired w') = [(0, UserCallback 1, map Value [0..<65])]"
    using res by blast
  have cH: "callerHandler (Some (UserCallback 1 :: nat finalCallback))"
    by (simp add: callerHandler_def)
  have la: "list_all callsBackOnce ts" using st by blast
  show ?thesis
    using big la cH sched lens ex unfolding ts_def by blast
qed

section \<open>The mode argument of start\<close>

lemma bigPoolWorld_fields:
  "alive bigPoolWorld 0" "taskMode (heap bigPoolWorld ! 0) = Pool"
  "\<not> isStarted (heap bigPoolWorld ! 0)" "asyncTaskList (heap bigPoolWorld ! 0) \<noteq> []"
  "length (asyncTaskList (heap bigPoolWorld ! 0)) = 65"
  "length (heap bigPoolWorld) = 1" "isDebug (heap bigPoolWorld ! 0) = False"
proof -
  have eq: "heap bigPoolWorld =
     [\<lparr>taskMode = Pool,
       asyncTaskList = constructorTasks exampleUUID (Suc 0) sixtyFiveTasks,
       asyncTaskResultList = 0, finalCallback = None, isStarted = False, isFinished = False,
       isDebug = False, instanceID = codeUnits ''AsyncTaskHelper::'' @ exampleUUID 0\<rparr>]"
    by (simp add: bigPoolWorld_def construct_eq emptyWorld_def exampleOptions_def optionTasks_def)
  have l: "length (constructorTasks exampleUUID (Suc 0) sixtyFiveTasks) = 65"
    by (simp only: length_constructorTasks sixtyFiveTasks_def length_map length_upt)
  show "alive bigPoolWorld 0" "taskMode (heap bigPoolWorld ! 0) = Pool"
    "\<not> isStarted (heap bigPoolWorld ! 0)" "length (heap bigPoolWorld) = 1"
    "isDebug (heap bigPoolWorld ! 0) = False"
    by (simp_all add: eq alive_def)
  show "length (asyncTaskList (heap bigPoolWorld ! 0)) = 65" using l by (simp add: eq)
  then show "asyncTaskList (heap bigPoolWorld ! 0) \<noteq> []" by auto
qed

lemma pool_step:
  "alive w this \<Longrightarrow> pool g this f w = (this, step g (PoolCall this f) w)"
  by (simp add: pool_def case_prod_unfold)

text \<open>
  Claim C9. On a coordinator whose stored mode is \<open>Pool\<close> (as the constructor leaves it
  for the option \<open>taskMode: Pool\<close>), not yet started and with a task:

  \<^item> \<open>start\<close> without a mode argument stores \<open>Queue\<close> and leaves the queue driver to run,
    and the queue driver runs one task only, the one at the index that is the number of
    results, with itself as what follows the task's callback;

  \<^item> \<open>start\<close> with the argument \<open>Pool\<close> is \<open>pool\<close>, which keeps the stored mode \<open>Pool\<close>
    and executes in pool mode: with at most 30 tasks it leaves every task of the registry
    to run at once, in order, with nothing to follow their callbacks; with more than 30 it
    constructs the queue-mode coordinator of the chunk tasks and leaves \<open>queue\<close> to run on
    it with the flattening handler;

  \<^item> so what \<open>start\<close> without a mode argument leaves to run is not what \<open>pool\<close> leaves.
\<close>

theorem omitted_mode_runs_queue:
  assumes "alive w this" and "taskMode (heap w ! this) = Pool"
    and "\<not> isStarted (heap w ! this)" and "asyncTaskList (heap w ! this) \<noteq> []"
  shows "start g this f None w =
           (this,
            w\<lparr>heap := (heap w)[this := (heap w ! this)
                 \<lparr>finalCallback := (case f of Some h \<Rightarrow> Some h | None \<Rightarrow> finalCallback (heap w ! this)),
                  taskMode := Queue, isStarted := True\<rparr>]\<rparr>,
            [ProcessNextQueueTask this])
       \<and> step g (ProcessNextQueueTask this) (fst (snd (start g this f None w))) =
           (if length (results w this) < length (asyncTaskList (heap w ! this))
            then ((fst (snd (start g this f None w)))
                    \<lparr>invoked := invoked w
                        @ [(this, asyncTaskList (heap w ! this) ! length (results w this))]\<rparr>,
                  [Invoke (asyncTaskFunction (asyncTaskList (heap w ! this) ! length (results w this)))
                     (TaskCallback this (asyncTaskList (heap w ! this) ! length (results w this)) True)])
            else (fst (snd (start g this f None w)), []))
       \<and> start g this f (Some Pool) w = pool g this f w
       \<and> pool g this f w =
           (if length (asyncTaskList (heap w ! this)) \<le> 30
            then (this,
                  w\<lparr>heap := (heap w)[this := (heap w ! this)
                       \<lparr>finalCallback := (case f of Some h \<Rightarrow> Some h | None \<Rightarrow> finalCallback (heap w ! this)),
                        taskMode := Pool, isStarted := True\<rparr>]\<rparr>,
                  map (\<lambda>t. RunTask this t False) (asyncTaskList (heap w ! this)))
            else (this,
                  w\<lparr>heap := (heap w)[this := (heap w ! this)
                       \<lparr>finalCallback := (case f of Some h \<Rightarrow> Some h | None \<Rightarrow> finalCallback (heap w ! this)),
                        taskMode := Pool, isStarted := True\<rparr>]
                       @ [\<lparr>taskMode = Queue,
                           asyncTaskList = constructorTasks g (Suc (uuidCount w))
                              (chunkCandidates (isDebug (heap w ! this))
                                 (chunksOf 30 (asyncTaskList (heap w ! this)))),
                           asyncTaskResultList = length (arrays w),
                           finalCallback = None,
                           isStarted = False, isFinished = False, isDebug = False,
                           instanceID = codeUnits ''AsyncTaskHelper::'' @ g (uuidCount w)\<rparr>],
                    arrays := arrays w @ [[]],
                    uuidCount := Suc (uuidCount w)
                                 + length (chunksOf 30 (asyncTaskList (heap w ! this)))\<rparr>,
                  [QueueCall (length (heap w)) (Some (FlattenInto this))]))
       \<and> snd (snd (start g this f None w)) \<noteq> snd (snd (pool g this f w))"
proof -
  let ?ts = "asyncTaskList (heap w ! this)"
  let ?h = "case f of Some h \<Rightarrow> Some h | None \<Rightarrow> finalCallback (heap w ! this)"
  let ?wQ = "w\<lparr>heap := (heap w)[this := (heap w ! this)
                 \<lparr>finalCallback := ?h, taskMode := Queue, isStarted := True\<rparr>]\<rparr>"
  let ?wP = "w\<lparr>heap := (heap w)[this := (heap w ! this)
                 \<lparr>finalCallback := ?h, taskMode := Pool, isStarted := True\<rparr>]\<rparr>"
  have lt: "this < length (heap w)" using assms(1) by (simp add: alive_def)
  have A: "start g this f None w = (this, ?wQ, [ProcessNextQueueTask this])"
    using assms lt by (simp add: start_def Let_def)
  have B: "step g (ProcessNextQueueTask this) ?wQ =
           (if length (results w this) < length ?ts
            then (?wQ\<lparr>invoked := invoked w @ [(this, ?ts ! length (results w this))]\<rparr>,
                  [Invoke (asyncTaskFunction (?ts ! length (results w this)))
                     (TaskCallback this (?ts ! length (results w this)) True)])
            else (?wQ, []))"
    using lt assms(4)
    by (simp add: alive_def processNextQueueTask_def runTask_def Let_def results_def)
  have C: "start g this f (Some Pool) w = pool g this f w"
    by (simp add: pool_def start_def Let_def finished_def case_prod_unfold split: option.splits)
  have small: "pool g this f w = (this, ?wP, map (\<lambda>t. RunTask this t False) ?ts)"
    if "length ?ts \<le> 30"
    unfolding pool_step [OF assms(1)]
    using step_PoolCall_small [OF lt assms(3) assms(4), of g f] that
    by (simp add: asyncPoolChunkSize_def)
  have big: "pool g this f w =
       (this,
        w\<lparr>heap := (heap w)[this := (heap w ! this)
               \<lparr>finalCallback := ?h, taskMode := Pool, isStarted := True\<rparr>]
               @ [\<lparr>taskMode = Queue,
                   asyncTaskList = constructorTasks g (Suc (uuidCount w))
                      (chunkCandidates (isDebug (heap w ! this)) (chunksOf 30 ?ts)),
                   asyncTaskResultList = length (arrays w),
                   finalCallback = None,
                   isStarted = False, isFinished = False, isDebug = False,
                   instanceID = codeUnits ''AsyncTaskHelper::'' @ g (uuidCount w)\<rparr>],
            arrays := arrays w @ [[]],
            uuidCount := Suc (uuidCount w) + length (chunksOf 30 ?ts)\<rparr>,
        [QueueCall (length (heap w)) (Some (FlattenInto this))])"
    if "\<not> length ?ts \<le> 30"
  proof -
    have "asyncPoolChunkSize < length ?ts" using that by (simp add: asyncPoolChunkSize_def)
    from step_PoolCall_big [OF lt assms(3) this, of g f]
    show ?thesis
      unfolding pool_step [OF assms(1)]
      by (simp add: construct_eq optionTasks_def chunkCandidates_def asyncPoolChunkSize_def)
  qed
  have D: "pool g this f w =
           (if length ?ts \<le> 30
            then (this, ?wP, map (\<lambda>t. RunTask this t False) ?ts)
            else (this,
        w\<lparr>heap := (heap w)[this := (heap w ! this)
               \<lparr>finalCallback := ?h, taskMode := Pool, isStarted := True\<rparr>]
               @ [\<lparr>taskMode = Queue,
                   asyncTaskList = constructorTasks g (Suc (uuidCount w))
                      (chunkCandidates (isDebug (heap w ! this)) (chunksOf 30 ?ts)),
                   asyncTaskResultList = length (arrays w),
                   finalCallback = None,
                   isStarted = False, isFinished = False, isDebug = False,
                   instanceID = codeUnits ''AsyncTaskHelper::'' @ g (uuidCount w)\<rparr>],
            arrays := arrays w @ [[]],
            uuidCount := Suc (uuidCount w) + length (chunksOf 30 ?ts)\<rparr>,
        [QueueCall (length (heap w)) (Some (FlattenInto this))]))"
    using small big by (cases "length ?ts \<le> 30") simp_all
  have E: "snd (snd (start g this f None w)) \<noteq> snd (snd (pool g this f w))"
  proof (cases "length ?ts \<le> 30")
    case True
    obtain t ts' where "?ts = t # ts'" using assms(4) by (cases ?ts) auto
    then show ?thesis unfolding A small [OF True] by simp
  next
    case False
    show ?thesis unfolding A big [OF False] by simp
  qed
  have B': "step g (ProcessNextQueueTask this) (fst (snd (start g this f None w))) =
           (if length (results w this) < length ?ts
            then ((fst (snd (start g this f None w)))
                    \<lparr>invoked := invoked w @ [(this, ?ts ! length (results w this))]\<rparr>,
                  [Invoke (asyncTaskFunction (?ts ! length (results w this)))
                     (TaskCallback this (?ts ! length (results w this)) True)])
            else (fst (snd (start g this f None w)), []))"
    unfolding A fst_conv snd_conv by (rule B)
  from A B' C D E show ?thesis by (intro conjI)
qed

theorem omitted_mode_runs_queue_witness:
  "alive poolWorld 0 \<and> taskMode (heap poolWorld ! 0) = Pool \<and> \<not> isStarted (heap poolWorld ! 0)
   \<and> asyncTaskList (heap poolWorld ! 0) \<noteq> []
   \<and> taskMode (heap (fst (snd (start exampleUUID 0 (Some (UserCallback 1)) None poolWorld))) ! 0) = Queue
   \<and> snd (snd (start exampleUUID 0 (Some (UserCallback 1)) None poolWorld)) = [ProcessNextQueueTask 0]
   \<and> snd (step exampleUUID (ProcessNextQueueTask 0)
           (fst (snd (start exampleUUID 0 (Some (UserCallback 1)) None poolWorld))))
       = [Invoke (UserFunction (codeUnits ''never'') [] [])
            (TaskCallback 0 (Task (UserFunction (codeUnits ''never'') [] []) (trim (exampleUUID 1))) True)]
   \<and> start exampleUUID 0 (Some (UserCallback 1)) (Some Pool) poolWorld
       = pool exampleUUID 0 (Some (UserCallback 1)) poolWorld
   \<and> taskMode (heap (fst (snd (pool exampleUUID 0 (Some (UserCallback 1)) poolWorld))) ! 0) = Pool
   \<and> snd (snd (pool exampleUUID 0 (Some (UserCallback 1)) poolWorld))
       = [RunTask 0 (Task (UserFunction (codeUnits ''never'') [] []) (trim (exampleUUID 1))) False,
          RunTask 0 (Task (UserFunction (codeUnits ''never'') [] []) (trim (exampleUUID 2))) False,
          RunTask 0 (Task (UserFunction (codeUnits ''never'') [] []) (trim (exampleUUID 3))) False]
   \<and> alive bigPoolWorld 0 \<and> taskMode (heap bigPoolWorld ! 0) = Pool
   \<and> \<not> isStarted (heap bigPoolWorld ! 0) \<and> asyncTaskList (heap bigPoolWorld ! 0) \<noteq> []
   \<and> snd (snd (start exampleUUID 0 None None bigPoolWorld)) = [ProcessNextQueueTask 0]
   \<and> snd (snd (pool exampleUUID 0 None bigPoolWorld)) = [QueueCall 1 (Some (FlattenInto 0))]
   \<and> taskMode (heap (fst (snd (pool exampleUUID 0 None bigPoolWorld))) ! 0) = Pool
   \<and> taskMode (heap (fst (snd (pool exampleUUID 0 None bigPoolWorld))) ! 1) = Queue
   \<and> length (asyncTaskList (heap (fst (snd (pool exampleUUID 0 None bigPoolWorld))) ! 1)) = 3"
proof -
  note small = omitted_mode_runs_queue [OF poolWorld_fields(1-4), of exampleUUID "Some (UserCallback 1)"]
  note big = omitted_mode_runs_queue [OF bigPoolWorld_fields(1-4), of exampleUUID None]
  have ts: "asyncTaskList (heap poolWorld ! 0)
     = [Task (UserFunction (codeUnits ''never'') [] []) (trim (exampleUUID 1)),
        Task (UserFunction (codeUnits ''never'') [] []) (trim (exampleUUID 2)),
        Task (UserFunction (codeUnits ''never'') [] []) (trim (exampleUUID 3))]"
    by (simp add: poolWorld_def construct_eq emptyWorld_def exampleOptions_def optionTasks_def
          neverTask_def nameTask_def wrapCandidate_def numeral_2_eq_2 numeral_3_eq_3)
  have rs: "results poolWorld 0 = []"
    by (simp add: results_def poolWorld_def construct_eq emptyWorld_def exampleOptions_def
          optionTasks_def)
  have l0: "length (heap poolWorld) = 1"
    by (simp add: poolWorld_def construct_eq emptyWorld_def)
  have s1: "taskMode (heap (fst (snd (start exampleUUID 0 (Some (UserCallback 1)) None poolWorld))) ! 0) = Queue"
    "snd (snd (start exampleUUID 0 (Some (UserCallback 1)) None poolWorld)) = [ProcessNextQueueTask 0]"
    using small l0 by simp_all
  have s2: "snd (step exampleUUID (ProcessNextQueueTask 0)
           (fst (snd (start exampleUUID 0 (Some (UserCallback 1)) None poolWorld))))
       = [Invoke (UserFunction (codeUnits ''never'') [] [])
            (TaskCallback 0 (Task (UserFunction (codeUnits ''never'') [] []) (trim (exampleUUID 1))) True)]"
  proof -
    from small have "step exampleUUID (ProcessNextQueueTask 0)
           (fst (snd (start exampleUUID 0 (Some (UserCallback 1)) None poolWorld))) =
           (if length (results poolWorld 0) < length (asyncTaskList (heap poolWorld ! 0))
            then ((fst (snd (start exampleUUID 0 (Some (UserCallback 1)) None poolWorld)))
                    \<lparr>invoked := invoked poolWorld
                        @ [(0, asyncTaskList (heap poolWorld ! 0) ! length (results poolWorld 0))]\<rparr>,
                  [Invoke (asyncTaskFunction (asyncTaskList (heap poolWorld ! 0) ! length (results poolWorld 0)))
                     (TaskCallback 0 (asyncTaskList (heap poolWorld ! 0) ! length (results poolWorld 0)) True)])
            else (fst (snd (start exampleUUID 0 (Some (UserCallback 1)) None poolWorld)), []))"
      by blast
    then show ?thesis unfolding rs ts by simp
  qed
  have s3: "start exampleUUID 0 (Some (UserCallback 1)) (Some Pool) poolWorld
       = pool exampleUUID 0 (Some (UserCallback 1)) poolWorld"
    using small by blast
  have s4: "pool exampleUUID 0 (Some (UserCallback 1)) poolWorld =
      (0, poolWorld\<lparr>heap := (heap poolWorld)[0 := (heap poolWorld ! 0)
                       \<lparr>finalCallback := Some (UserCallback 1), taskMode := Pool, isStarted := True\<rparr>]\<rparr>,
       map (\<lambda>t. RunTask 0 t False) (asyncTaskList (heap poolWorld ! 0)))"
    using small by (simp add: ts)
  have s5: "taskMode (heap (fst (snd (pool exampleUUID 0 (Some (UserCallback 1)) poolWorld))) ! 0) = Pool"
    unfolding s4 using l0 by simp
  have s6: "snd (snd (pool exampleUUID 0 (Some (UserCallback 1)) poolWorld))
       = [RunTask 0 (Task (UserFunction (codeUnits ''never'') [] []) (trim (exampleUUID 1))) False,
          RunTask 0 (Task (UserFunction (codeUnits ''never'') [] []) (trim (exampleUUID 2))) False,
          RunTask 0 (Task (UserFunction (codeUnits ''never'') [] []) (trim (exampleUUID 3))) False]"
    unfolding s4 by (simp add: ts)
  have b1: "snd (snd (start exampleUUID 0 None None bigPoolWorld)) = [ProcessNextQueueTask 0]"
    using big by simp
  have c65: "chunksOf 30 (asyncTaskList (heap bigPoolWorld ! 0))
       = [take 30 (asyncTaskList (heap bigPoolWorld ! 0)),
          take 30 (drop 30 (asyncTaskList (heap bigPoolWorld ! 0))),
          drop 60 (asyncTaskList (heap bigPoolWorld ! 0))]"
    by (rule chunksOf_65 [OF bigPoolWorld_fields(5)])
  have b2: "pool exampleUUID 0 None bigPoolWorld =
     (0,
      bigPoolWorld\<lparr>heap := (heap bigPoolWorld)[0 := (heap bigPoolWorld ! 0)
             \<lparr>finalCallback := finalCallback (heap bigPoolWorld ! 0), taskMode := Pool, isStarted := True\<rparr>]
             @ [\<lparr>taskMode = Queue,
                 asyncTaskList = constructorTasks exampleUUID (Suc (uuidCount bigPoolWorld))
                    (chunkCandidates (isDebug (heap bigPoolWorld ! 0))
                       (chunksOf 30 (asyncTaskList (heap bigPoolWorld ! 0)))),
                 asyncTaskResultList = length (arrays bigPoolWorld),
                 finalCallback = None,
                 isStarted = False, isFinished = False, isDebug = False,
                 instanceID = codeUnits ''AsyncTaskHelper::'' @ exampleUUID (uuidCount bigPoolWorld)\<rparr>],
          arrays := arrays bigPoolWorld @ [[]],
          uuidCount := Suc (uuidCount bigPoolWorld)
                       + length (chunksOf 30 (asyncTaskList (heap bigPoolWorld ! 0)))\<rparr>,
      [QueueCall (length (heap bigPoolWorld)) (Some (FlattenInto 0))])"
    using big by (simp add: bigPoolWorld_fields(5))
  have b3: "snd (snd (pool exampleUUID 0 None bigPoolWorld)) = [QueueCall 1 (Some (FlattenInto 0))]"
    unfolding b2 by (simp add: bigPoolWorld_fields(6))
  have b4: "taskMode (heap (fst (snd (pool exampleUUID 0 None bigPoolWorld))) ! 0) = Pool"
    unfolding b2 by (simp add: bigPoolWorld_fields(6) nth_append)
  have b5: "taskMode (heap (fst (snd (pool exampleUUID 0 None bigPoolWorld))) ! 1) = Queue"
    unfolding b2 by (simp add: bigPoolWorld_fields(6) nth_append)
  have b6: "length (asyncTaskList (heap (fst (snd (pool exampleUUID 0 None bigPoolWorld))) ! 1)) = 3"
    unfolding b2 by (simp add: bigPoolWorld_fields(6) nth_append c65 chunkCandidates_def)
  from poolWorld_fields(1-4) bigPoolWorld_fields(1-4) s1 s2 s3 s5 s6 b1 b3 b4 b5 b6
  show ?thesis by (intro conjI)
qed

end
